theory Spec2Isabelle
  imports Main "HOL-Library.Word"
begin

unbundle bit_operations_syntax

section \<open>Fixed-point price arithmetic\<close>

text \<open>
  \<^verbatim>\<open>CAmount\<close> is \<^verbatim>\<open>int64_t\<close>: a 64-bit word, read as two's complement with \<open>sint\<close>.

  Modelled from the spec: \<^verbatim>\<open>arith_uint256\<close> and \<^verbatim>\<open>SATOSHIDEN\<close> are declared outside the
  files at hand. The specification names a fixed-width unsigned integer of 256 bits with
  multiply, divide and subtract, and the scale \<open>10\<^sup>8\<close>. So \<^verbatim>\<open>arith_uint256\<close> is a 256-bit word:
  \<open>*\<close> and \<open>-\<close> wrap modulo \<open>2 ^ 256\<close>, \<open>/\<close> throws on a zero divisor, \<^verbatim>\<open>GetLow64\<close> keeps
  the low 64 bits, and an \<^verbatim>\<open>int64_t\<close> operand reaches it through the \<^verbatim>\<open>uint64_t\<close>
  constructor, that is, zero-extended.
\<close>

type_synonym CAmount = "64 word"
type_synonym arith_uint256 = "256 word"

datatype uint_error = Division_by_zero

definition SATOSHIDEN :: "64 word" where
  "SATOSHIDEN = 100000000"

definition GetLow64 :: "arith_uint256 \<Rightarrow> 64 word" where
  "GetLow64 x = ucast x"

definition CalculateFractionalPrice :: "CAmount \<Rightarrow> CAmount \<Rightarrow> bool \<Rightarrow> uint_error + CAmount" where
  "CalculateFractionalPrice smallNumerator smallDenominator roundup =
     (let BigSatoshi = (ucast SATOSHIDEN :: arith_uint256);
          BigSatoshiSquared = BigSatoshi * BigSatoshi;
          denominator = ucast smallDenominator * BigSatoshi;
          numerator = ucast smallNumerator * BigSatoshiSquared
      in if denominator = 0 then Inl Division_by_zero
         else
           let bigAnswer = numerator div denominator;
               remainder = GetLow64 (numerator - bigAnswer * denominator);
               answer = GetLow64 bigAnswer
           in Inr (if remainder \<noteq> 0 \<and> roundup then answer + 1 else answer))"


section \<open>Ledger data\<close>

text \<open>
  Modelled from the spec: the classes below (section 3 of the specification) are declared
  in headers outside the files at hand; each record keeps the members that
  \<^verbatim>\<open>pbaasrpc.cpp\<close> reads or writes. Identifiers and hashes are words of
  their width, \<^verbatim>\<open>IsNull()\<close> is equality with zero. Opaque payloads (currency states, node
  lists, state roots) are natural numbers standing for their contents.
\<close>

type_synonym uint160 = "160 word"
type_synonym uint256 = "256 word"
type_synonym CCoinbaseCurrencyState = nat

record CUTXORef =
  utxo_hash :: uint256
  utxo_n :: "32 word"

text \<open>
  Modelled from the spec: \<^verbatim>\<open>CUTXORef()\<close>, the null output reference that a record without
  parent carries; its constructor is outside the files at hand. It is a fixed value with
  a null hash, here with index \<^verbatim>\<open>(uint32_t)-1\<close>.
\<close>

definition CUTXORef_null :: CUTXORef where
  "CUTXORef_null = \<lparr>utxo_hash = 0, utxo_n = - 1\<rparr>"

record CProofRoot =
  systemID :: uint160
  rootHeight :: "32 word"
  stateRoot :: uint256
  blockHash :: uint256
  compactPower :: uint256

text \<open>
  Modelled from the spec: the flags and versions of a notarization record; the constants
  are declared outside the files at hand, and the code at hand only passes
  \<^verbatim>\<open>FLAG_LAUNCH_CONFIRMED\<close> and \<^verbatim>\<open>VERSION_CURRENT\<close> to the constructor.
\<close>

datatype notarization_flag =
  FLAG_DEFINITION_NOTARIZATION | FLAG_PRE_LAUNCH | FLAG_START_NOTARIZATION |
  FLAG_LAUNCH_CONFIRMED | FLAG_REFUNDING | FLAG_ACCEPTED_MIRROR |
  FLAG_BLOCKONE_NOTARIZATION | FLAG_SAME_CHAIN | FLAG_LAUNCH_COMPLETE

datatype notarization_version = VERSION_INVALID | VERSION_CURRENT

record CPBaaSNotarization =
  nVersion :: notarization_version
  flags :: "notarization_flag set"
  proposer :: uint160
  currencyID :: uint160
  currencyState :: CCoinbaseCurrencyState
  notarizationHeight :: "32 word"
  prevNotarization :: CUTXORef
  prevHeight :: "32 word"
  currencyStates :: "uint160 \<rightharpoonup> CCoinbaseCurrencyState"
  proofRoots :: "uint160 \<rightharpoonup> CProofRoot"
  nodes :: "nat list"

record CObjectFinalization =
  fValid :: bool
  fin_output :: CUTXORef

record CReserveTransfer =
  rt_flags :: "32 word"
  FirstCurrency :: uint160
  destCurrencyID :: uint160

datatype eval_code =
  EVAL_NONE | EVAL_FINALIZE_NOTARIZATION | EVAL_EARNEDNOTARIZATION |
  EVAL_ACCEPTEDNOTARIZATION | EVAL_RESERVE_TRANSFER | EVAL_OTHER nat

text \<open>
  An element of \<^verbatim>\<open>COptCCParams::vData\<close> is a byte vector that the code hands to the
  deserialising constructors. The record holds what each constructor makes of it: the
  finalization object with the verdict of its \<^verbatim>\<open>IsValid()\<close>, and for the notarization and the
  reserve transfer \<open>None\<close> when \<^verbatim>\<open>IsValid()\<close> is false (their members are then never read).
  \<open>asMasterValid\<close> is \<^verbatim>\<open>COptCCParams(v).IsValid()\<close>.
\<close>

record vdata =
  asFinalization :: CObjectFinalization
  asNotarization :: "CPBaaSNotarization option"
  asReserveTransfer :: "CReserveTransfer option"
  asMasterValid :: bool

record COptCCParams =
  ccValid :: bool
  version :: nat
  evalCode :: eval_code
  vData :: "vdata list"

text \<open>
  A script as the code reads it: \<open>p2cc\<close> is \<open>Some p\<close> when
  \<^verbatim>\<open>IsPayToCryptoCondition(p)\<close> returns true and fills \<open>p\<close>; \<open>scriptNotarization\<close> is the
  record built by \<^verbatim>\<open>CPBaaSNotarization(script)\<close>, \<open>None\<close> when its \<^verbatim>\<open>IsValid()\<close> is false.
\<close>

record CScript =
  p2cc :: "COptCCParams option"
  scriptNotarization :: "CPBaaSNotarization option"

record CTxOut =
  scriptPubKey :: CScript
  nValue :: "64 word"

record CTransaction =
  vout :: "CTxOut list"

record CAddressUnspentKey =
  u_txhash :: uint256
  u_index :: nat

record CAddressUnspentValue =
  satoshis :: "64 word"
  script :: CScript
  blockHeight :: int

record CAddressIndexKey =
  i_txhash :: uint256
  i_index :: nat
  spending :: bool

record CCoins =
  coins_vout :: "CTxOut list"
  nHeight :: int
  IsAvailable :: "nat \<Rightarrow> bool"

record CCurrencyDefinition =
  cdValid :: bool
  IsToken :: bool

record CChainNotarizationData =
  vtx :: "(CUTXORef \<times> CPBaaSNotarization) list"
  forks :: "nat list list"
  lastConfirmed :: nat
  bestChain :: nat

datatype index_key =
  ConfirmedNotarizationKey uint160 | PendingNotarizationKey uint160 | ReserveTransferKey

text \<open>
  Everything the functions take from the rest of the node (section 6 of the specification):
  the currency cache, the active chain, the address index, transaction lookup, the coins
  view and the chain constants. \<^verbatim>\<open>CChainPower\<close>, its default value, its expansion from a
  compact value and its \<^verbatim>\<open>operator>\<close> live in another file: they are the type parameter
  \<open>'p\<close> and three fields. \<open>in_active_chain h\<close> is the test that \<open>h\<close> is found in
  \<^verbatim>\<open>mapBlockIndex\<close> at an index that \<^verbatim>\<open>chainActive\<close> contains.
\<close>

record 'p externals =
  GetCachedCurrency :: "uint160 \<Rightarrow> CCurrencyDefinition"
  chainActive_Height :: "32 word"
  IsVerusActive :: bool
  ASSETCHAINS_CHAINID :: uint160
  VERUS_NOTARYID :: uint160
  VERUS_DEFAULTID :: uint160
  VERUS_NODEID :: uint160
  GetProofRoot :: "32 word \<Rightarrow> CProofRoot"
  GetCurrencyState :: "32 word \<Rightarrow> CCoinbaseCurrencyState"
  GetAddressUnspent :: "index_key \<Rightarrow> bool \<times> (CAddressUnspentKey \<times> CAddressUnspentValue) list"
  GetAddressIndex :: "index_key \<Rightarrow> int \<Rightarrow> int \<Rightarrow> bool \<times> (CAddressIndexKey \<times> 64 word) list"
  myGetTransaction :: "uint256 \<Rightarrow> (CTransaction \<times> uint256) option"
  GetCoins :: "uint256 \<Rightarrow> CCoins option"
  in_active_chain :: "uint256 \<Rightarrow> bool"
  default_power :: 'p
  ExpandCompactPower :: "uint256 \<Rightarrow> nat \<Rightarrow> 'p"
  power_gt :: "'p \<Rightarrow> 'p \<Rightarrow> bool"
  RT_VALID :: "32 word"
  RT_IMPORT_TO_SOURCE :: "32 word"
  VERSION_V3 :: nat

section \<open>Notarization fork resolution\<close>

datatype query_failure =
  Cannot_retrieve_currency | Invalid_finalization | Invalid_notarization |
  Cannot_retrieve_transaction | No_starting_point

type_synonym tx_out_list = "(CTransaction \<times> uint256) list"
type_synonym notarization_refs = "(CUTXORef \<times> (CUTXORef \<times> CPBaaSNotarization)) list"

text \<open>The record and the one-fork index that every successful seed writes.\<close>

definition single_fork :: "CUTXORef \<Rightarrow> CPBaaSNotarization \<Rightarrow> CChainNotarizationData" where
  "single_fork txInfo thisNotarization =
     \<lparr>vtx = [(txInfo, thisNotarization)], forks = [[0]], lastConfirmed = 0, bestChain = 0\<rparr>"

text \<open>Lines 2385 to 2401: the notarization made up for the local chain.\<close>

definition local_notarization :: "('p, 'z) externals_scheme \<Rightarrow> uint160 \<Rightarrow> CPBaaSNotarization" where
  "local_notarization env cid =
     (let height = chainActive_Height env;
          proposerID = (if VERUS_NOTARYID env = 0
                        then (if VERUS_DEFAULTID env = 0 then VERUS_NODEID env else VERUS_DEFAULTID env)
                        else VERUS_NOTARYID env)
      in \<lparr>nVersion = VERSION_CURRENT,
          flags = {FLAG_LAUNCH_CONFIRMED},
          proposer = proposerID,
          currencyID = cid,
          currencyState = GetCurrencyState env height,
          notarizationHeight = height,
          prevNotarization = CUTXORef_null,
          prevHeight = 0,
          currencyStates = Map.empty,
          proofRoots = [ASSETCHAINS_CHAINID env \<mapsto> GetProofRoot env height],
          nodes = []\<rparr>)"

text \<open>Lines 2417 to 2424: the first entry of greatest block height.\<close>

definition latest_confirmed ::
  "(CAddressUnspentKey \<times> CAddressUnspentValue) list \<Rightarrow> CAddressUnspentKey \<times> CAddressUnspentValue" where
  "latest_confirmed unspentFinalizations =
     foldl (\<lambda>bestIt oneIt. if blockHeight (snd oneIt) > blockHeight (snd bestIt) then oneIt else bestIt)
       (hd unspentFinalizations) unspentFinalizations"

text \<open>
  Lines 2426 to 2516, for a non-empty list of confirmed finalizations. The result is a
  failure, or the seeded data with the transactions pushed to \<^verbatim>\<open>optionalTxOut\<close> and a flag
  that says whether the function returns at once (line 2507). \<open>wantTx\<close> is
  \<^verbatim>\<open>optionalTxOut != NULL\<close>. A finalization whose transaction cannot be read, or is too short,
  leaves \<^verbatim>\<open>vtx\<close> empty and fails at line 2515.
\<close>

definition seed_confirmed ::
  "('p, 'z) externals_scheme \<Rightarrow> CCurrencyDefinition \<Rightarrow> bool \<Rightarrow>
   CAddressUnspentKey \<times> CAddressUnspentValue \<Rightarrow>
   query_failure + (bool \<times> CChainNotarizationData \<times> tx_out_list)" where
  "seed_confirmed env chainDef wantTx bestIt =
     (case p2cc (script (snd bestIt)) of
        None \<Rightarrow> Inl Invalid_finalization
      | Some p \<Rightarrow>
          if \<not> ccValid p \<or>
             \<not> (evalCode p = EVAL_FINALIZE_NOTARIZATION \<or> evalCode p = EVAL_EARNEDNOTARIZATION \<or>
                evalCode p = EVAL_ACCEPTEDNOTARIZATION) \<or>
             vData p = []
          then Inl Invalid_finalization
          else
            let txInfo = \<lparr>utxo_hash = u_txhash (fst bestIt), utxo_n = of_nat (u_index (fst bestIt))\<rparr>
            in if evalCode p = EVAL_FINALIZE_NOTARIZATION then
                 let finalization = asFinalization (vData p ! 0);
                     txInfo = (if utxo_hash (fin_output finalization) \<noteq> 0
                               then txInfo\<lparr>utxo_hash := utxo_hash (fin_output finalization)\<rparr> else txInfo);
                     txInfo = txInfo\<lparr>utxo_n := utxo_n (fin_output finalization)\<rparr>
                 in (case myGetTransaction env (utxo_hash txInfo) of
                       None \<Rightarrow> Inl No_starting_point
                     | Some (nTx, blkHash) \<Rightarrow>
                         if length (vout nTx) > unat (utxo_n txInfo) then
                           (case scriptNotarization (scriptPubKey (vout nTx ! unat (utxo_n txInfo))) of
                              None \<Rightarrow> Inl Invalid_notarization
                            | Some thisNotarization \<Rightarrow>
                                Inr (False, single_fork txInfo thisNotarization,
                                     if wantTx then [(nTx, blkHash)] else []))
                         else Inl No_starting_point)
               else
                 (case asNotarization (vData p ! 0) of
                    None \<Rightarrow> Inl Invalid_notarization
                  | Some thisNotarization \<Rightarrow>
                      if wantTx then
                        (case myGetTransaction env (utxo_hash txInfo) of
                           None \<Rightarrow> Inl Cannot_retrieve_transaction
                         | Some (nTx, blkHash) \<Rightarrow>
                             if length (vout nTx) > unat (utxo_n txInfo) then
                               (case scriptNotarization (scriptPubKey (vout nTx ! unat (utxo_n txInfo))) of
                                  None \<Rightarrow> Inl Invalid_notarization
                                | Some _ \<Rightarrow>
                                    Inr (IsToken chainDef, single_fork txInfo thisNotarization,
                                         [(nTx, blkHash)]))
                             else Inl Cannot_retrieve_transaction)
                      else Inr (IsToken chainDef, single_fork txInfo thisNotarization, [])))"

text \<open>
  Lines 2368 to 2516: the seed step. The flag of the result is true when the function
  returns true at once (lines 2406 and 2507).
\<close>

definition seed_step ::
  "('p, 'z) externals_scheme \<Rightarrow> uint160 \<Rightarrow> bool \<Rightarrow>
   query_failure + (bool \<times> CChainNotarizationData \<times> tx_out_list)" where
  "seed_step env cid wantTx =
     (let chainDef = GetCachedCurrency env cid in
      if \<not> cdValid chainDef then Inl Cannot_retrieve_currency
      else
        let height = chainActive_Height env in
        if (IsVerusActive env \<or> height = 0) \<and> cid = ASSETCHAINS_CHAINID env
        then Inr (True, single_fork CUTXORef_null (local_notarization env cid), [])
        else
          (case GetAddressUnspent env (ConfirmedNotarizationKey cid) of
             (ok, unspentFinalizations) \<Rightarrow>
               if ok \<and> unspentFinalizations \<noteq> []
               then seed_confirmed env chainDef wantTx (latest_confirmed unspentFinalizations)
               else Inl No_starting_point))"


text \<open>
  Lines 2543 to 2569: one pending finalization. \<open>None\<close> is the \<^verbatim>\<open>continue\<close> of line 2560;
  otherwise the entry for \<^verbatim>\<open>notarizationReferences\<close>, keyed by the parent reference, and the
  transaction it was read from.
\<close>

definition pending_notarization ::
  "('p, 'z) externals_scheme \<Rightarrow> CAddressUnspentKey \<times> CAddressUnspentValue \<Rightarrow>
   ((CUTXORef \<times> (CUTXORef \<times> CPBaaSNotarization)) \<times> (CTransaction \<times> uint256)) option" where
  "pending_notarization env it =
     (case p2cc (script (snd it)) of
        None \<Rightarrow> None
      | Some p \<Rightarrow>
          if ccValid p \<and> evalCode p = EVAL_FINALIZE_NOTARIZATION \<and> vData p \<noteq> [] then
            let f = asFinalization (vData p ! 0) in
            if fValid f then
              (case myGetTransaction env
                      (if utxo_hash (fin_output f) = 0 then u_txhash (fst it) else utxo_hash (fin_output f)) of
                 None \<Rightarrow> None
               | Some (nTx, blkHash) \<Rightarrow>
                   if length (vout nTx) > unat (utxo_n (fin_output f)) then
                     (case p2cc (scriptPubKey (vout nTx ! unat (utxo_n (fin_output f)))) of
                        None \<Rightarrow> None
                      | Some p \<Rightarrow>
                          if ccValid p \<and>
                             (evalCode p = EVAL_ACCEPTEDNOTARIZATION \<or> evalCode p = EVAL_EARNEDNOTARIZATION) \<and>
                             vData p \<noteq> []
                          then
                            (case asNotarization (vData p ! 0) of
                               None \<Rightarrow> None
                             | Some n \<Rightarrow>
                                 if blkHash \<noteq> 0 \<and> in_active_chain env blkHash then
                                   let out = (if utxo_hash (fin_output f) = 0
                                              then (fin_output f)\<lparr>utxo_hash := u_txhash (fst it)\<rparr>
                                              else fin_output f)
                                   in Some ((prevNotarization n, (out, n)), (nTx, blkHash))
                                 else None)
                          else None)
                   else None)
            else None
          else None)"

text \<open>
  \<^verbatim>\<open>notarizationReferences\<close> is a \<^verbatim>\<open>std::multimap\<close> keyed by the parent reference. The code
  only inserts, walks the entries of one key, erases one key and asks for the size, so the
  model is the list of entries in insertion order: the entries of one key, in the order the
  multimap keeps them, are the entries of the list with that key.
\<close>

definition refs_of :: "CUTXORef \<Rightarrow> notarization_refs \<Rightarrow> (CUTXORef \<times> CPBaaSNotarization) list" where
  "refs_of searchRef refs = map snd (filter (\<lambda>e. fst e = searchRef) refs)"

definition refs_erase :: "CUTXORef \<Rightarrow> notarization_refs \<Rightarrow> notarization_refs" where
  "refs_erase searchRef refs = filter (\<lambda>e. fst e \<noteq> searchRef) refs"

text \<open>
  Lines 2593 to 2613: the matches of one fork tip, in order. \<open>newFork\<close> is the flag of the
  code: the first match is appended to fork \<open>forkNum\<close>, every later one to a copy of that
  (already extended) fork whose last index it overwrites.
\<close>

fun add_matches ::
  "nat \<Rightarrow> bool \<Rightarrow> (CUTXORef \<times> CPBaaSNotarization) list \<Rightarrow>
   CChainNotarizationData \<times> bool \<Rightarrow> CChainNotarizationData \<times> bool" where
  "add_matches forkNum newFork [] (nd, somethingAdded) = (nd, somethingAdded)"
| "add_matches forkNum newFork (pending # rest) (nd, somethingAdded) =
     (let nd = nd\<lparr>vtx := vtx nd @ [pending]\<rparr> in
      if newFork then
        add_matches forkNum True rest
          (nd\<lparr>forks := forks nd @ [butlast (forks nd ! forkNum) @ [length (vtx nd) - 1]]\<rparr>,
           somethingAdded)
      else
        add_matches forkNum True rest
          (nd\<lparr>forks := (forks nd)[forkNum := forks nd ! forkNum @ [length (vtx nd) - 1]]\<rparr>,
           True))"

text \<open>Lines 2587 to 2614: one fork of the inner \<^verbatim>\<open>for\<close> loop.\<close>

definition extend_fork ::
  "nat \<Rightarrow> CChainNotarizationData \<times> notarization_refs \<times> bool \<Rightarrow>
   CChainNotarizationData \<times> notarization_refs \<times> bool" where
  "extend_fork forkNum s =
     (case s of (nd, refs, somethingAdded) \<Rightarrow>
        let searchRef = fst (vtx nd ! last (forks nd ! forkNum)) in
        (case add_matches forkNum False (refs_of searchRef refs) (nd, somethingAdded) of
           (nd', added') \<Rightarrow> (nd', refs_erase searchRef refs, added')))"

text \<open>Lines 2583 to 2615: one pass over the forks that exist when the pass starts.\<close>

definition fork_pass ::
  "CChainNotarizationData \<times> notarization_refs \<Rightarrow> CChainNotarizationData \<times> notarization_refs \<times> bool" where
  "fork_pass s = (case s of (nd, refs) \<Rightarrow>
     foldl (\<lambda>s forkNum. extend_fork forkNum s) (nd, refs, False) [0..<length (forks nd)])"


lemma add_matches_added_mono:
  "add_matches forkNum newFork ms (nd, True) = (nd', a) \<Longrightarrow> a"
  by (induction ms arbitrary: nd newFork) (auto simp: Let_def split: if_splits)

lemma add_matches_first:
  "ms \<noteq> [] \<Longrightarrow> add_matches forkNum False ms (nd, a) = (nd', a') \<Longrightarrow> a'"
  by (cases ms) (auto simp: Let_def dest: add_matches_added_mono)

lemma refs_erase_length: "length (refs_erase r refs) \<le> length refs"
  by (simp add: refs_erase_def)

lemma refs_erase_shrinks:
  "refs_of r refs \<noteq> [] \<Longrightarrow> length (refs_erase r refs) < length refs"
proof -
  assume "refs_of r refs \<noteq> []"
  then obtain e where "e \<in> set refs" "fst e = r"
    by (auto simp: refs_of_def filter_empty_conv)
  then show ?thesis
    unfolding refs_erase_def by (intro length_filter_less [of e]) auto
qed

text \<open>
  What one fork does to the pending set: it never grows, and when the fork turns the flag
  on, or the flag was on and something matched, the set has shrunk.
\<close>

definition pass_measure :: "notarization_refs \<times> bool \<Rightarrow> nat" where
  "pass_measure s = (case s of (refs, added) \<Rightarrow> 2 * length refs + (if added then 1 else 0))"

lemma extend_fork_measure:
  assumes "extend_fork forkNum (nd, refs, a) = (nd', refs', a')"
  shows "pass_measure (refs', a') \<le> pass_measure (refs, a)"
proof -
  let ?r = "fst (vtx nd ! last (forks nd ! forkNum))"
  from assms have r: "refs' = refs_erase ?r refs"
    and m: "add_matches forkNum False (refs_of ?r refs) (nd, a) = (nd', a')"
    by (auto simp: extend_fork_def Let_def split: prod.splits)
  show ?thesis
  proof (cases "refs_of ?r refs = []")
    case True
    with m have "a' = a" by simp
    with r show ?thesis using refs_erase_length [of ?r refs] by (simp add: pass_measure_def)
  next
    case False
    have "a'" using add_matches_first [OF False m] .
    with r show ?thesis using refs_erase_shrinks [OF False] by (simp add: pass_measure_def)
  qed
qed

lemma foldl_extend_fork_measure:
  "foldl (\<lambda>s forkNum. extend_fork forkNum s) (nd, refs, a) ks = (nd', refs', a') \<Longrightarrow>
   pass_measure (refs', a') \<le> pass_measure (refs, a)"
proof (induction ks arbitrary: nd refs a)
  case Nil
  then show ?case by simp
next
  case (Cons k ks)
  obtain nd1 refs1 a1 where e: "extend_fork k (nd, refs, a) = (nd1, refs1, a1)"
    by (cases "extend_fork k (nd, refs, a)") auto
  with Cons.prems have "foldl (\<lambda>s forkNum. extend_fork forkNum s) (nd1, refs1, a1) ks = (nd', refs', a')"
    by simp
  then have "pass_measure (refs', a') \<le> pass_measure (refs1, a1)" by (rule Cons.IH)
  with extend_fork_measure [OF e] show ?case by simp
qed

lemma fork_pass_shrinks:
  assumes "fork_pass (nd, refs) = (nd', refs', True)"
  shows "length refs' < length refs"
  using foldl_extend_fork_measure [of nd refs False "[0..<length (forks nd)]" nd' refs' True] assms
  by (simp add: fork_pass_def pass_measure_def)

lemma fork_pass_measure:
  "(case fork_pass (nd, refs) of (nd', refs', added') \<Rightarrow> if added' then Suc (length refs') else 0)
     < Suc (length refs)"
proof (cases "fork_pass (nd, refs)")
  case (fields nd' refs' added')
  then show ?thesis
    using fork_pass_shrinks [of nd refs nd' refs'] by (cases added') auto
qed


text \<open>
  Lines 2579 to 2616: the \<^verbatim>\<open>while\<close> loop. It runs while the last pass added something and
  pending entries are left; every pass that adds something removes an entry, which is the
  measure of the termination proof.
\<close>

function expand_forks ::
  "CChainNotarizationData \<Rightarrow> notarization_refs \<Rightarrow> bool \<Rightarrow> CChainNotarizationData \<times> notarization_refs" where
  "expand_forks nd refs somethingAdded =
     (if somethingAdded \<and> refs \<noteq> [] then
        (case fork_pass (nd, refs) of
           (nd', refs', added') \<Rightarrow> expand_forks nd' refs' added')
      else (nd, refs))"
  by pat_completeness auto
termination
  by (relation "measure (\<lambda>(nd, refs, added). if added then Suc (length refs) else 0)")
     (auto simp: fork_pass_measure)

declare expand_forks.simps [simp del]

text \<open>Lines 2621 to 2646: the tip of most power among the forks whose tip has a proof root.\<close>

definition best_step ::
  "('p, 'z) externals_scheme \<Rightarrow> uint160 \<Rightarrow> CChainNotarizationData \<Rightarrow> 'p \<times> nat \<Rightarrow> nat \<Rightarrow> 'p \<times> nat" where
  "best_step env cid nd s i =
     (case s of (best, bestChain') \<Rightarrow>
        (case proofRoots (snd (vtx nd ! last (forks nd ! i))) cid of
           None \<Rightarrow> (best, bestChain')
         | Some root \<Rightarrow>
             let curPower = ExpandCompactPower env (compactPower root) i in
             if power_gt env curPower best then (curPower, i) else (best, bestChain')))"

definition select_best :: "('p, 'z) externals_scheme \<Rightarrow> uint160 \<Rightarrow> CChainNotarizationData \<Rightarrow> nat" where
  "select_best env cid nd =
     snd (foldl (best_step env cid nd) (default_power env, 0) [0..<length (forks nd)])"

text \<open>
  \<^verbatim>\<open>referencedTxes\<close> is a \<^verbatim>\<open>std::map\<close>: \<^verbatim>\<open>insert\<close> keeps the first entry of a key, and
  \<^verbatim>\<open>operator[]\<close> gives a default-constructed value for a key that is not there.
\<close>

definition referenced_tx :: "(CUTXORef \<times> CTransaction \<times> uint256) list \<Rightarrow> CUTXORef \<Rightarrow> CTransaction \<times> uint256" where
  "referenced_tx referencedTxes r =
     (case map_of referencedTxes r of Some t \<Rightarrow> t | None \<Rightarrow> (\<lparr>vout = []\<rparr>, 0))"

text \<open>
  Lines 2518 to 2647: the pending finalizations, the forks they grow and the best chain.
  Every record pushed to \<^verbatim>\<open>vtx\<close> by the loop pushes its transaction to
  \<^verbatim>\<open>optionalTxOut\<close>, in the same order.
\<close>

definition pending_phase ::
  "('p, 'z) externals_scheme \<Rightarrow> uint160 \<Rightarrow> bool \<Rightarrow> CChainNotarizationData \<times> tx_out_list \<Rightarrow>
   CChainNotarizationData \<times> tx_out_list" where
  "pending_phase env cid wantTx s =
     (case s of (nd, txs) \<Rightarrow>
        (case GetAddressUnspent env (PendingNotarizationKey cid) of
           (ok, pendingFinalizations) \<Rightarrow>
             if ok \<and> pendingFinalizations \<noteq> [] then
               let found = List.map_filter (pending_notarization env) pendingFinalizations;
                   notarizationReferences = map fst found;
                   referencedTxes = (if wantTx then map (\<lambda>e. (fst (snd (fst e)), snd e)) found else []);
                   nd' = fst (expand_forks nd notarizationReferences True);
                   txs' = (if wantTx
                           then txs @ map (\<lambda>v. referenced_tx referencedTxes (fst v)) (drop (length (vtx nd)) (vtx nd'))
                           else txs)
               in (nd'\<lparr>bestChain := select_best env cid nd'\<rparr>, txs')
             else (nd, txs)))"

text \<open>
  \<^verbatim>\<open>GetNotarizationData\<close>. \<open>Inl\<close> is \<^verbatim>\<open>return false\<close>; \<open>Inr\<close> is \<^verbatim>\<open>return true\<close> with the
  data written to \<^verbatim>\<open>notarizationData\<close> and the transactions pushed to \<^verbatim>\<open>optionalTxOut\<close>.
  Fork paths, \<^verbatim>\<open>lastConfirmed\<close> and \<^verbatim>\<open>bestChain\<close> hold \<^verbatim>\<open>int\<close> indices that the function
  never makes negative: natural numbers here.
\<close>

definition GetNotarizationData ::
  "('p, 'z) externals_scheme \<Rightarrow> uint160 \<Rightarrow> bool \<Rightarrow>
   query_failure + (CChainNotarizationData \<times> tx_out_list)" where
  "GetNotarizationData env cid wantTx =
     (case seed_step env cid wantTx of
        Inl e \<Rightarrow> Inl e
      | Inr (done, nd, txs) \<Rightarrow>
          if done then Inr (nd, txs)
          else
            (case pending_phase env cid wantTx (nd, txs) of
               (nd', txs') \<Rightarrow> if vtx nd' \<noteq> [] then Inr (nd', txs') else Inl No_starting_point))"


section \<open>Transfer scans\<close>

text \<open>
  \<^verbatim>\<open>CInputDescriptor(script, value, CTxIn(COutPoint(txhash, index)))\<close>. The result multimap
  is the list of inserted entries in insertion order, keyed by the destination currency.
  Indexing \<^verbatim>\<open>vout\<close> beyond its size is undefined behaviour in the code and a fault here.
\<close>

record CInputDescriptor =
  id_scriptPubKey :: CScript
  id_nValue :: "64 word"
  id_txIn :: CUTXORef

datatype scan_fault = Output_index_out_of_range

type_synonym chain_transfers = "(uint160 \<times> CInputDescriptor \<times> CReserveTransfer) list"
type_synonym unspent_chain_transfers = "(uint160 \<times> int \<times> CInputDescriptor \<times> CReserveTransfer) list"

text \<open>The destination of a transfer: its first currency when it is flagged import-to-source.\<close>

definition transfer_destination :: "('p, 'z) externals_scheme \<Rightarrow> CReserveTransfer \<Rightarrow> uint160" where
  "transfer_destination env rt =
     (if rt_flags rt AND RT_IMPORT_TO_SOURCE env \<noteq> 0 then FirstCurrency rt else destCurrencyID rt)"

text \<open>Lines 2279 to 2289: the entry that one output adds, if any.\<close>

definition chain_transfer_of ::
  "('p, 'z) externals_scheme \<Rightarrow> uint160 \<Rightarrow> 32 word \<Rightarrow> CAddressIndexKey \<Rightarrow> CTxOut \<Rightarrow>
   (uint160 \<times> CInputDescriptor \<times> CReserveTransfer) option" where
  "chain_transfer_of env chainFilter flags' key out =
     (case p2cc (scriptPubKey out) of
        None \<Rightarrow> None
      | Some p \<Rightarrow>
          if evalCode p = EVAL_RESERVE_TRANSFER \<and> length (vData p) > 1 then
            (case asReserveTransfer (vData p ! 0) of
               None \<Rightarrow> None
             | Some rt \<Rightarrow>
                 if asMasterValid (vData p ! 1) \<and>
                    (chainFilter = 0 \<or> transfer_destination env rt = chainFilter) \<and>
                    rt_flags rt AND flags' = flags'
                 then Some (transfer_destination env rt,
                            \<lparr>id_scriptPubKey = scriptPubKey out, id_nValue = nValue out,
                             id_txIn = \<lparr>utxo_hash = i_txhash key, utxo_n = of_nat (i_index key)\<rparr>\<rparr>,
                            rt)
                 else None)
          else None)"

text \<open>Lines 2265 to 2305: the loop over the index entries.\<close>

fun chain_transfers_loop ::
  "('p, 'z) externals_scheme \<Rightarrow> uint160 \<Rightarrow> 32 word \<Rightarrow> (CAddressIndexKey \<times> 64 word) list \<Rightarrow>
   chain_transfers \<Rightarrow> scan_fault + (bool \<times> chain_transfers)" where
  "chain_transfers_loop env chainFilter flags' [] inputDescriptors = Inr (True, inputDescriptors)"
| "chain_transfers_loop env chainFilter flags' (it # rest) inputDescriptors =
     (if spending (fst it) then chain_transfers_loop env chainFilter flags' rest inputDescriptors
      else
        (case myGetTransaction env (i_txhash (fst it)) of
           None \<Rightarrow> Inr (False, inputDescriptors)
         | Some (ntx, blkHash) \<Rightarrow>
             if i_index (fst it) < length (vout ntx) then
               chain_transfers_loop env chainFilter flags' rest
                 (case chain_transfer_of env chainFilter flags' (fst it) (vout ntx ! i_index (fst it)) of
                    None \<Rightarrow> inputDescriptors
                  | Some e \<Rightarrow> inputDescriptors @ [e])
             else Inl Output_index_out_of_range))"

text \<open>
  \<^verbatim>\<open>GetChainTransfers\<close>, lines 2242 to 2307. The result is the returned flag and the entries
  of \<^verbatim>\<open>inputDescriptors\<close> when the function returns.
\<close>

definition GetChainTransfers ::
  "('p, 'z) externals_scheme \<Rightarrow> chain_transfers \<Rightarrow> uint160 \<Rightarrow> int \<Rightarrow> int \<Rightarrow> 32 word \<Rightarrow>
   scan_fault + (bool \<times> chain_transfers)" where
  "GetChainTransfers env inputDescriptors chainFilter start end flags' =
     (let flags' = (if flags' = 0 then RT_VALID env else flags') in
      case GetAddressIndex env ReserveTransferKey start end of
        (ok, addressIndex) \<Rightarrow>
          if \<not> ok then Inr (False, inputDescriptors)
          else chain_transfers_loop env chainFilter flags' addressIndex inputDescriptors)"

text \<open>Lines 2341 to 2356: the entry that one available output adds, if any.\<close>

definition unspent_transfer_of ::
  "('p, 'z) externals_scheme \<Rightarrow> uint160 \<Rightarrow> CAddressUnspentKey \<Rightarrow> CCoins \<Rightarrow> CTxOut \<Rightarrow>
   (uint160 \<times> int \<times> CInputDescriptor \<times> CReserveTransfer) option" where
  "unspent_transfer_of env chainFilter key coins out =
     (case p2cc (scriptPubKey out) of
        None \<Rightarrow> None
      | Some p \<Rightarrow>
          if evalCode p = EVAL_RESERVE_TRANSFER \<and> vData p \<noteq> [] \<and> version p \<ge> VERSION_V3 env \<and>
             asMasterValid (last (vData p))
          then
            (case asReserveTransfer (vData p ! 0) of
               None \<Rightarrow> None
             | Some rt \<Rightarrow>
                 if transfer_destination env rt \<noteq> 0 \<and>
                    (chainFilter = 0 \<or> transfer_destination env rt = chainFilter)
                 then Some (transfer_destination env rt, nHeight coins,
                            \<lparr>id_scriptPubKey = scriptPubKey out, id_nValue = nValue out,
                             id_txIn = \<lparr>utxo_hash = u_txhash key, utxo_n = of_nat (u_index key)\<rparr>\<rparr>,
                            rt)
                 else None)
          else None)"

text \<open>Lines 2327 to 2364: the loop over the unspent outputs; it has no \<^verbatim>\<open>return false\<close>.\<close>

fun unspent_transfers_loop ::
  "('p, 'z) externals_scheme \<Rightarrow> uint160 \<Rightarrow> (CAddressUnspentKey \<times> CAddressUnspentValue) list \<Rightarrow>
   unspent_chain_transfers \<Rightarrow> scan_fault + (bool \<times> unspent_chain_transfers)" where
  "unspent_transfers_loop env chainFilter [] inputDescriptors = Inr (True, inputDescriptors)"
| "unspent_transfers_loop env chainFilter (it # rest) inputDescriptors =
     (case GetCoins env (u_txhash (fst it)) of
        None \<Rightarrow> unspent_transfers_loop env chainFilter rest inputDescriptors
      | Some coins \<Rightarrow>
          if IsAvailable coins (u_index (fst it)) then
            (if u_index (fst it) < length (coins_vout coins) then
               unspent_transfers_loop env chainFilter rest
                 (case unspent_transfer_of env chainFilter (fst it) coins (coins_vout coins ! u_index (fst it)) of
                    None \<Rightarrow> inputDescriptors
                  | Some e \<Rightarrow> inputDescriptors @ [e])
             else Inl Output_index_out_of_range)
          else unspent_transfers_loop env chainFilter rest inputDescriptors)"

text \<open>\<^verbatim>\<open>GetUnspentChainTransfers\<close>, lines 2311 to 2366.\<close>

definition GetUnspentChainTransfers ::
  "('p, 'z) externals_scheme \<Rightarrow> unspent_chain_transfers \<Rightarrow> uint160 \<Rightarrow>
   scan_fault + (bool \<times> unspent_chain_transfers)" where
  "GetUnspentChainTransfers env inputDescriptors chainFilter =
     (case GetAddressUnspent env ReserveTransferKey of
        (ok, unspentOutputs) \<Rightarrow>
          if \<not> ok then Inr (False, inputDescriptors)
          else unspent_transfers_loop env chainFilter unspentOutputs inputDescriptors)"


section \<open>Example ledgers\<close>

text \<open>
  Small ledgers on which the functions are run. Chain power is a natural number here: a
  compact value expands to its own value, whatever the fork index, the default power is 0
  and \<^verbatim>\<open>operator>\<close> is \<open>>\<close>. The queried currency is 7, the local chain is 1.
\<close>

definition ex_ref :: "uint256 \<Rightarrow> CUTXORef" where
  "ex_ref h = \<lparr>utxo_hash = h, utxo_n = 0\<rparr>"

definition ex_root :: "uint256 \<Rightarrow> CProofRoot" where
  "ex_root pw = \<lparr>systemID = 7, rootHeight = 0, stateRoot = 0, blockHash = 0, compactPower = pw\<rparr>"

definition ex_notarization :: "CUTXORef \<Rightarrow> (uint160 \<rightharpoonup> CProofRoot) \<Rightarrow> CPBaaSNotarization" where
  "ex_notarization prev roots =
     \<lparr>nVersion = VERSION_CURRENT, flags = {}, proposer = 0, currencyID = 7, currencyState = 0,
      notarizationHeight = 0, prevNotarization = prev, prevHeight = 0,
      currencyStates = Map.empty, proofRoots = roots, nodes = []\<rparr>"

definition ex_script_n :: "CPBaaSNotarization \<Rightarrow> CScript" where
  "ex_script_n n =
     \<lparr>p2cc = Some \<lparr>ccValid = True, version = 3, evalCode = EVAL_EARNEDNOTARIZATION,
                    vData = [\<lparr>asFinalization = \<lparr>fValid = False, fin_output = CUTXORef_null\<rparr>,
                              asNotarization = Some n, asReserveTransfer = None,
                              asMasterValid = False\<rparr>]\<rparr>,
      scriptNotarization = Some n\<rparr>"

definition ex_script_f :: "CUTXORef \<Rightarrow> CScript" where
  "ex_script_f r =
     \<lparr>p2cc = Some \<lparr>ccValid = True, version = 3, evalCode = EVAL_FINALIZE_NOTARIZATION,
                    vData = [\<lparr>asFinalization = \<lparr>fValid = True, fin_output = r\<rparr>,
                              asNotarization = None, asReserveTransfer = None,
                              asMasterValid = False\<rparr>]\<rparr>,
      scriptNotarization = None\<rparr>"

definition ex_tx :: "CPBaaSNotarization \<Rightarrow> CTransaction \<times> uint256" where
  "ex_tx n = (\<lparr>vout = [\<lparr>scriptPubKey = ex_script_n n, nValue = 0\<rparr>]\<rparr>, 1)"

definition ex_entry :: "uint256 \<Rightarrow> CScript \<Rightarrow> int \<Rightarrow> CAddressUnspentKey \<times> CAddressUnspentValue" where
  "ex_entry h s ht = (\<lparr>u_txhash = h, u_index = 0\<rparr>, \<lparr>satoshis = 0, script = s, blockHeight = ht\<rparr>)"

definition ex_env ::
  "(CAddressUnspentKey \<times> CAddressUnspentValue) list \<Rightarrow>
   (CAddressUnspentKey \<times> CAddressUnspentValue) list \<Rightarrow>
   (uint256 \<times> CTransaction \<times> uint256) list \<Rightarrow> nat externals" where
  "ex_env confirmed pending txs =
     \<lparr>GetCachedCurrency = (\<lambda>c. \<lparr>cdValid = (c = 7 \<or> c = 1), IsToken = False\<rparr>),
      chainActive_Height = 100,
      IsVerusActive = True,
      ASSETCHAINS_CHAINID = 1,
      VERUS_NOTARYID = 0,
      VERUS_DEFAULTID = 0,
      VERUS_NODEID = 9,
      GetProofRoot = (\<lambda>h. ex_root 0),
      GetCurrencyState = (\<lambda>h. 0),
      GetAddressUnspent = (\<lambda>k. case k of
          ConfirmedNotarizationKey c \<Rightarrow> (True, if c = 7 then confirmed else [])
        | PendingNotarizationKey c \<Rightarrow> (True, if c = 7 then pending else [])
        | ReserveTransferKey \<Rightarrow> (True, [])),
      GetAddressIndex = (\<lambda>k start end. (True, [])),
      myGetTransaction = map_of txs,
      GetCoins = (\<lambda>h. None),
      in_active_chain = (\<lambda>h. True),
      default_power = 0,
      ExpandCompactPower = (\<lambda>c i. unat c),
      power_gt = (\<lambda>a b. a > b),
      RT_VALID = 1,
      RT_IMPORT_TO_SOURCE = 512,
      VERSION_V3 = 3\<rparr>"

text \<open>
  The scenario of the specification: confirmed root \<open>R\<close> (transaction 10) and the pending
  records \<open>P1\<close> (11, on \<open>R\<close>), \<open>P2\<close> (12, on \<open>R\<close>) and \<open>P3\<close> (13, on \<open>P1\<close>), each finalized by
  an output of its own transaction. The arguments are the compact powers of the four proof
  roots.
\<close>

definition ex_R :: "uint256 \<Rightarrow> CPBaaSNotarization" where
  "ex_R pw = ex_notarization CUTXORef_null [7 \<mapsto> ex_root pw]"

definition ex_P1 :: "uint256 \<Rightarrow> CPBaaSNotarization" where
  "ex_P1 pw = ex_notarization (ex_ref 10) [7 \<mapsto> ex_root pw]"

definition ex_P2 :: "uint256 \<Rightarrow> CPBaaSNotarization" where
  "ex_P2 pw = ex_notarization (ex_ref 10) [7 \<mapsto> ex_root pw]"

definition ex_P3 :: "uint256 \<Rightarrow> CPBaaSNotarization" where
  "ex_P3 pw = ex_notarization (ex_ref 11) [7 \<mapsto> ex_root pw]"

definition ex_txs :: "uint256 \<Rightarrow> uint256 \<Rightarrow> uint256 \<Rightarrow> uint256 \<Rightarrow> (uint256 \<times> CTransaction \<times> uint256) list" where
  "ex_txs r p1 p2 p3 = [(10, ex_tx (ex_R r)), (11, ex_tx (ex_P1 p1)), (12, ex_tx (ex_P2 p2)), (13, ex_tx (ex_P3 p3))]"

definition ex_confirmed :: "(CAddressUnspentKey \<times> CAddressUnspentValue) list" where
  "ex_confirmed = [ex_entry 10 (ex_script_f (ex_ref 0)) 50]"

text \<open>The three pending finalizations of the scenario, in the order \<open>P1\<close>, \<open>P2\<close>, \<open>P3\<close>.\<close>

definition ex_pending :: "(CAddressUnspentKey \<times> CAddressUnspentValue) list" where
  "ex_pending = [ex_entry 11 (ex_script_f (ex_ref 0)) 60, ex_entry 12 (ex_script_f (ex_ref 0)) 60,
                 ex_entry 13 (ex_script_f (ex_ref 0)) 61]"

text \<open>
  A token whose confirmed index holds three entries: a finalization at height 40, the legacy
  notarization output \<open>R\<close> of transaction 10 at height 50, and another legacy output of
  transaction 14 at the same height. The entry of transaction 10 is the first one of the
  greatest height.
\<close>

definition ex_token_confirmed :: "(CAddressUnspentKey \<times> CAddressUnspentValue) list" where
  "ex_token_confirmed =
     [ex_entry 9 (ex_script_f (ex_ref 0)) 40, ex_entry 10 (ex_script_n (ex_R 1)) 50,
      ex_entry 14 (ex_script_n (ex_R 2)) 50]"

definition ex_token_env :: "nat externals" where
  "ex_token_env =
     ex_env ex_token_confirmed [] (ex_txs 1 5 5 3)
       \<lparr>GetCachedCurrency := (\<lambda>c. \<lparr>cdValid = True, IsToken = True\<rparr>)\<rparr>"

text \<open>
  Two pending records on the confirmed root, in either order of discovery, and the data
  that the first order yields.
\<close>

definition ex_pending_12 :: "(CAddressUnspentKey \<times> CAddressUnspentValue) list" where
  "ex_pending_12 = [ex_entry 11 (ex_script_f (ex_ref 0)) 60, ex_entry 12 (ex_script_f (ex_ref 0)) 60]"

definition ex_pending_21 :: "(CAddressUnspentKey \<times> CAddressUnspentValue) list" where
  "ex_pending_21 = [ex_entry 12 (ex_script_f (ex_ref 0)) 60, ex_entry 11 (ex_script_f (ex_ref 0)) 60]"

definition ex_two_forks :: "uint256 \<Rightarrow> uint256 \<Rightarrow> uint256 \<Rightarrow> CChainNotarizationData" where
  "ex_two_forks r p1 p2 =
     \<lparr>vtx = [(ex_ref 10, ex_R r), (ex_ref 11, ex_P1 p1), (ex_ref 12, ex_P2 p2)],
      forks = [[0, 1], [0, 2]], lastConfirmed = 0, bestChain = 0\<rparr>"

text \<open>The root and one pending record on it, neither with a proof root for currency 7.\<close>

definition ex_txs_noroot :: "(uint256 \<times> CTransaction \<times> uint256) list" where
  "ex_txs_noroot = [(10, ex_tx (ex_notarization CUTXORef_null Map.empty)),
                    (11, ex_tx (ex_notarization (ex_ref 10) Map.empty))]"

text \<open>
  A ledger with two indexed reserve-transfer outputs: the one of transaction 20, which cannot
  be read, and the one of transaction 21, a valid transfer to currency 7.
\<close>

definition ex_transfer :: CReserveTransfer where
  "ex_transfer = \<lparr>rt_flags = 1, FirstCurrency = 1, destCurrencyID = 7\<rparr>"

definition ex_transfer_out :: CTxOut where
  "ex_transfer_out =
     \<lparr>scriptPubKey =
        \<lparr>p2cc = Some \<lparr>ccValid = True, version = 3, evalCode = EVAL_RESERVE_TRANSFER,
                       vData = [\<lparr>asFinalization = \<lparr>fValid = False, fin_output = CUTXORef_null\<rparr>,
                                 asNotarization = None, asReserveTransfer = Some ex_transfer,
                                 asMasterValid = False\<rparr>,
                                \<lparr>asFinalization = \<lparr>fValid = False, fin_output = CUTXORef_null\<rparr>,
                                 asNotarization = None, asReserveTransfer = None,
                                 asMasterValid = True\<rparr>]\<rparr>,
         scriptNotarization = None\<rparr>,
      nValue = 5\<rparr>"

definition ex_transfer_env :: "nat externals" where
  "ex_transfer_env =
     ex_env [] [] [(21, \<lparr>vout = [ex_transfer_out]\<rparr>, 1)]
       \<lparr>GetAddressUnspent := (\<lambda>k. (True,
            [(\<lparr>u_txhash = 20, u_index = 0\<rparr>, \<lparr>satoshis = 5, script = scriptPubKey ex_transfer_out, blockHeight = 60\<rparr>),
             (\<lparr>u_txhash = 21, u_index = 0\<rparr>, \<lparr>satoshis = 5, script = scriptPubKey ex_transfer_out, blockHeight = 60\<rparr>)])),
        GetAddressIndex := (\<lambda>k start end. (True,
            [(\<lparr>i_txhash = 20, i_index = 0, spending = False\<rparr>, 5),
             (\<lparr>i_txhash = 21, i_index = 0, spending = False\<rparr>, 5)])),
        GetCoins := (\<lambda>h. if h = 21
            then Some \<lparr>coins_vout = [ex_transfer_out], nHeight = 60, IsAvailable = (\<lambda>i. i = 0)\<rparr>
            else None)\<rparr>"

text \<open>
  The pending entries of the scenario as the loop receives them: \<open>P1\<close> and \<open>P2\<close> keyed by
  the root, \<open>P3\<close> keyed by \<open>P1\<close>.
\<close>

definition ex_refs :: notarization_refs where
  "ex_refs = [(ex_ref 10, (ex_ref 11, ex_P1 5)), (ex_ref 10, (ex_ref 12, ex_P2 5)),
              (ex_ref 11, (ex_ref 13, ex_P3 3))]"

lemma ex_env_simps:
  "cdValid (GetCachedCurrency (ex_env c p t) x) = (x = 7 \<or> x = 1)"
  "IsToken (GetCachedCurrency (ex_env c p t) x) = False"
  "chainActive_Height (ex_env c p t) = 100"
  "IsVerusActive (ex_env c p t) = True"
  "ASSETCHAINS_CHAINID (ex_env c p t) = 1"
  "GetAddressUnspent (ex_env c p t) (ConfirmedNotarizationKey x) = (True, if x = 7 then c else [])"
  "GetAddressUnspent (ex_env c p t) (PendingNotarizationKey x) = (True, if x = 7 then p else [])"
  "myGetTransaction (ex_env c p t) = map_of t"
  "in_active_chain (ex_env c p t) h = True"
  "default_power (ex_env c p t) = 0"
  "ExpandCompactPower (ex_env c p t) w i = unat w"
  "power_gt (ex_env c p t) a b = (a > b)"
  by (simp_all add: ex_env_def)



section \<open>The fork expansion in closed form\<close>

lemma add_matches_clones:
  "forkNum < length (forks nd) \<Longrightarrow> forks nd ! forkNum = g @ [x] \<Longrightarrow>
   add_matches forkNum True ms (nd, a) =
     (nd\<lparr>vtx := vtx nd @ ms,
         forks := forks nd @ map (\<lambda>k. g @ [k]) [length (vtx nd)..<length (vtx nd) + length ms]\<rparr>, a)"
proof (induction ms arbitrary: nd)
  case Nil
  then show ?case by simp
next
  case (Cons m ms)
  let ?nd = "nd\<lparr>vtx := vtx nd @ [m], forks := forks nd @ [g @ [length (vtx nd)]]\<rparr>"
  have "add_matches forkNum True (m # ms) (nd, a) = add_matches forkNum True ms (?nd, a)"
    using Cons.prems by (simp add: Let_def)
  also have "\<dots> = (?nd\<lparr>vtx := vtx ?nd @ ms,
      forks := forks ?nd @ map (\<lambda>k. g @ [k]) [length (vtx ?nd)..<length (vtx ?nd) + length ms]\<rparr>, a)"
    using Cons.prems by (intro Cons.IH) (simp_all add: nth_append)
  also have "\<dots> = (nd\<lparr>vtx := vtx nd @ m # ms,
      forks := forks nd @ map (\<lambda>k. g @ [k]) [length (vtx nd)..<length (vtx nd) + length (m # ms)]\<rparr>, a)"
    by (simp add: upt_conv_Cons del: upt_Suc)
  finally show ?case .
qed

lemma add_matches_closed:
  assumes "forkNum < length (forks nd)"
  shows "add_matches forkNum False (m # ms) (nd, a) =
     (nd\<lparr>vtx := vtx nd @ m # ms,
         forks := (forks nd)[forkNum := forks nd ! forkNum @ [length (vtx nd)]] @
                  map (\<lambda>k. forks nd ! forkNum @ [k]) [Suc (length (vtx nd))..<Suc (length (vtx nd)) + length ms]\<rparr>,
      True)"
proof -
  let ?f = "forks nd ! forkNum"
  let ?nd = "nd\<lparr>vtx := vtx nd @ [m], forks := (forks nd)[forkNum := ?f @ [length (vtx nd)]]\<rparr>"
  have "add_matches forkNum False (m # ms) (nd, a) = add_matches forkNum True ms (?nd, True)"
    by (simp add: Let_def)
  also have "\<dots> = (?nd\<lparr>vtx := vtx ?nd @ ms,
      forks := forks ?nd @ map (\<lambda>k. ?f @ [k]) [length (vtx ?nd)..<length (vtx ?nd) + length ms]\<rparr>, True)"
    using assms by (intro add_matches_clones) simp_all
  finally show ?thesis by (simp del: upt_Suc)
qed

text \<open>The step of one fork, written out: nothing happens without a match.\<close>

lemma extend_fork_none:
  "refs_of (fst (vtx nd ! last (forks nd ! forkNum))) refs = [] \<Longrightarrow>
   extend_fork forkNum (nd, refs, a) = (nd, refs_erase (fst (vtx nd ! last (forks nd ! forkNum))) refs, a)"
  by (simp add: extend_fork_def)

lemma extend_fork_some:
  assumes k: "forkNum < length (forks nd)"
    and r: "refs_of (fst (vtx nd ! last (forks nd ! forkNum))) refs = m # ms"
  shows "extend_fork forkNum (nd, refs, a) =
     (nd\<lparr>vtx := vtx nd @ m # ms,
         forks := (forks nd)[forkNum := forks nd ! forkNum @ [length (vtx nd)]] @
                  map (\<lambda>k. forks nd ! forkNum @ [k]) [Suc (length (vtx nd))..<Suc (length (vtx nd)) + length ms]\<rparr>,
      refs_erase (fst (vtx nd ! last (forks nd ! forkNum))) refs, True)"
  by (simp only: extend_fork_def prod.case Let_def r add_matches_closed [OF k])

lemma refs_erase_none: "refs_of r refs = [] \<Longrightarrow> refs_erase r refs = refs"
  by (auto simp: refs_of_def refs_erase_def filter_empty_conv filter_id_conv)

text \<open>
  An invariant of the whole loop follows from its preservation by the step of one fork.
  The invariant may speak of the data and of the pending entries left.
\<close>

lemma extend_fork_forks_length:
  "forkNum < length (forks nd) \<Longrightarrow> extend_fork forkNum (nd, refs, a) = (nd', refs', a') \<Longrightarrow>
   length (forks nd) \<le> length (forks nd')"
  by (cases "refs_of (fst (vtx nd ! last (forks nd ! forkNum))) refs")
     (auto simp: extend_fork_none extend_fork_some)

lemma foldl_extend_fork_invariant:
  assumes step: "\<And>nd refs a k nd' refs' a'. P nd refs \<Longrightarrow> k < length (forks nd) \<Longrightarrow>
       extend_fork k (nd, refs, a) = (nd', refs', a') \<Longrightarrow> P nd' refs'"
  shows "P nd refs \<Longrightarrow> \<forall>k \<in> set ks. k < length (forks nd) \<Longrightarrow>
     foldl (\<lambda>s forkNum. extend_fork forkNum s) (nd, refs, a) ks = (nd', refs', a') \<Longrightarrow> P nd' refs'"
proof (induction ks arbitrary: nd refs a)
  case Nil
  then show ?case by simp
next
  case (Cons k ks)
  obtain nd1 refs1 a1 where e: "extend_fork k (nd, refs, a) = (nd1, refs1, a1)"
    by (cases "extend_fork k (nd, refs, a)") auto
  have k: "k < length (forks nd)" using Cons.prems(2) by simp
  have p1: "P nd1 refs1" using step [OF Cons.prems(1) k e] .
  have "length (forks nd) \<le> length (forks nd1)"
    using extend_fork_forks_length [OF k e] .
  then have ks: "\<forall>j \<in> set ks. j < length (forks nd1)"
    using Cons.prems(2) by auto
  have "foldl (\<lambda>s forkNum. extend_fork forkNum s) (nd1, refs1, a1) ks = (nd', refs', a')"
    using Cons.prems(3) e by simp
  then show ?case using Cons.IH [OF p1 ks] by simp
qed

lemma fork_pass_invariant:
  assumes step: "\<And>nd refs a k nd' refs' a'. P nd refs \<Longrightarrow> k < length (forks nd) \<Longrightarrow>
       extend_fork k (nd, refs, a) = (nd', refs', a') \<Longrightarrow> P nd' refs'"
    and "P nd refs" "fork_pass (nd, refs) = (nd', refs', a')"
  shows "P nd' refs'"
  using foldl_extend_fork_invariant [of P nd refs "[0..<length (forks nd)]" False nd' refs' a'] assms
  by (simp add: fork_pass_def)

lemma expand_forks_invariant:
  assumes step: "\<And>nd refs a k nd' refs' a'. P nd refs \<Longrightarrow> k < length (forks nd) \<Longrightarrow>
       extend_fork k (nd, refs, a) = (nd', refs', a') \<Longrightarrow> P nd' refs'"
  shows "P nd refs \<Longrightarrow> expand_forks nd refs a = (nd', refs') \<Longrightarrow> P nd' refs'"
proof (induction nd refs a rule: expand_forks.induct)
  case (1 nd refs somethingAdded)
  show ?case
  proof (cases "somethingAdded \<and> refs \<noteq> []")
    case False
    with "1.prems" show ?thesis by (simp add: expand_forks.simps)
  next
    case True
    obtain nd1 refs1 a1 where fp: "fork_pass (nd, refs) = (nd1, refs1, a1)"
      by (cases "fork_pass (nd, refs)") auto
    have p1: "P nd1 refs1"
      using fork_pass_invariant [of P, OF step "1.prems"(1) fp] by simp
    have "expand_forks nd1 refs1 a1 = (nd', refs')"
      using "1.prems"(2) True fp by (simp add: expand_forks.simps [of nd refs])
    then show ?thesis
      using "1.IH" True fp p1 by auto
  qed
qed


section \<open>Properties of the seed step and of fork growth\<close>

text \<open>
  Every fork path is a non-empty list of indices into \<^verbatim>\<open>vtx\<close> that starts at entry 0, the
  seed.
\<close>

definition forks_rooted :: "CChainNotarizationData \<Rightarrow> bool" where
  "forks_rooted nd \<longleftrightarrow>
     vtx nd \<noteq> [] \<and> forks nd \<noteq> [] \<and>
     (\<forall>f \<in> set (forks nd). f \<noteq> [] \<and> hd f = 0 \<and> (\<forall>i \<in> set f. i < length (vtx nd)))"

lemma forks_rooted_single_fork: "forks_rooted (single_fork r n)"
  by (simp add: forks_rooted_def single_fork_def)

lemma extend_fork_rooted:
  assumes inv: "forks_rooted nd" and k: "k < length (forks nd)"
    and e: "extend_fork k (nd, refs, a) = (nd', refs', a')"
  shows "forks_rooted nd'"
proof (cases "refs_of (fst (vtx nd ! last (forks nd ! k))) refs")
  case Nil
  with e inv show ?thesis by (simp add: extend_fork_none)
next
  case (Cons m ms)
  let ?f = "forks nd ! k"
  let ?L = "length (vtx nd)"
  have f: "?f \<in> set (forks nd)" using k by simp
  then have fp: "?f \<noteq> []" "hd ?f = 0" "\<forall>i \<in> set ?f. i < ?L"
    using inv by (auto simp: forks_rooted_def)
  have nd': "vtx nd' = vtx nd @ m # ms"
    "forks nd' = (forks nd)[k := ?f @ [?L]] @ map (\<lambda>j. ?f @ [j]) [Suc ?L..<Suc ?L + length ms]"
    using e extend_fork_some [OF k Cons, of a] by auto
  have "g \<noteq> [] \<and> hd g = 0 \<and> (\<forall>i \<in> set g. i < length (vtx nd'))" if g: "g \<in> set (forks nd')" for g
  proof -
    from g nd'(2) consider "g \<in> set ((forks nd)[k := ?f @ [?L]])"
      | j where "g = ?f @ [j]" "j < Suc ?L + length ms"
      by auto
    then show ?thesis
    proof cases
      case 1
      then have "g \<in> insert (?f @ [?L]) (set (forks nd))"
        using set_update_subset_insert by fastforce
      then show ?thesis
        using fp inv nd'(1) by (fastforce simp: forks_rooted_def)
    next
      case 2
      then show ?thesis using fp nd'(1) by auto
    qed
  qed
  then show ?thesis
    using inv nd' by (simp add: forks_rooted_def)
qed

text \<open>The loop only appends to \<^verbatim>\<open>vtx\<close> and leaves \<^verbatim>\<open>lastConfirmed\<close> and \<^verbatim>\<open>bestChain\<close> alone.\<close>

definition grown_from :: "CChainNotarizationData \<Rightarrow> CChainNotarizationData \<Rightarrow> bool" where
  "grown_from nd0 nd \<longleftrightarrow>
     (\<exists>ys. vtx nd = vtx nd0 @ ys) \<and> lastConfirmed nd = lastConfirmed nd0 \<and>
     bestChain nd = bestChain nd0"

lemma extend_fork_grown:
  assumes g: "grown_from nd0 nd" and k: "k < length (forks nd)"
    and e: "extend_fork k (nd, refs, a) = (nd', refs', a')"
  shows "grown_from nd0 nd'"
proof (cases "refs_of (fst (vtx nd ! last (forks nd ! k))) refs")
  case Nil
  with e g show ?thesis by (simp add: extend_fork_none)
next
  case (Cons m ms)
  then show ?thesis
    using e g extend_fork_some [OF k Cons, of a] by (auto simp: grown_from_def)
qed

lemma expand_forks_rooted:
  assumes "forks_rooted nd" "expand_forks nd refs a = (nd', refs')"
  shows "forks_rooted nd' \<and> grown_from nd nd'"
proof -
  have "forks_rooted nd' \<and> grown_from nd nd'"
  proof (rule expand_forks_invariant [where P = "\<lambda>x r. forks_rooted x \<and> grown_from nd x"])
    show "forks_rooted nd \<and> grown_from nd nd"
      using assms(1) by (simp add: grown_from_def)
    show "expand_forks nd refs a = (nd', refs')" by fact
  qed (auto intro: extend_fork_rooted extend_fork_grown)
  then show ?thesis .
qed

lemma seed_confirmed_single:
  "seed_confirmed env chainDef wantTx e = Inr (done, nd, txs) \<Longrightarrow> \<exists>r n. nd = single_fork r n"
  unfolding seed_confirmed_def
  by (auto simp: Let_def split: option.splits if_splits prod.splits)

lemma seed_step_single:
  "seed_step env cid wantTx = Inr (done, nd, txs) \<Longrightarrow> \<exists>r n. nd = single_fork r n"
  unfolding seed_step_def
  by (auto simp: Let_def split: if_splits prod.splits dest: seed_confirmed_single)

lemma pending_phase_rooted:
  assumes "forks_rooted nd" "pending_phase env cid wantTx (nd, txs) = (nd', txs')"
  shows "forks_rooted nd' \<and> (\<exists>ys. vtx nd' = vtx nd @ ys) \<and> lastConfirmed nd' = lastConfirmed nd"
proof (cases "fst (GetAddressUnspent env (PendingNotarizationKey cid)) \<and>
              snd (GetAddressUnspent env (PendingNotarizationKey cid)) \<noteq> []")
  case False
  with assms show ?thesis
    by (auto simp: pending_phase_def split: prod.splits)
next
  case True
  define refs where
    "refs = map fst (List.map_filter (pending_notarization env) (snd (GetAddressUnspent env (PendingNotarizationKey cid))))"
  obtain nd1 refs1 where x: "expand_forks nd refs True = (nd1, refs1)"
    by (cases "expand_forks nd refs True") auto
  have r: "forks_rooted nd1 \<and> grown_from nd nd1"
    using expand_forks_rooted [OF assms(1) x] .
  have "nd' = nd1\<lparr>bestChain := select_best env cid nd1\<rparr>"
    using assms(2) True x
    by (auto simp: pending_phase_def Let_def refs_def split: prod.splits)
  with r show ?thesis
    by (auto simp: forks_rooted_def grown_from_def)
qed



text \<open>
  The loop of lines 2417 to 2424 keeps the first entry of the greatest block height: an
  entry replaces the kept one only when its height is strictly greater.
\<close>

lemma foldl_latest_index:
  fixes h :: "'a \<Rightarrow> int"
  shows "\<exists>i\<le>length xs.
           foldl (\<lambda>bestIt oneIt. if h oneIt > h bestIt then oneIt else bestIt) b xs = (b # xs) ! i \<and>
           (\<forall>j\<le>length xs. h ((b # xs) ! j) \<le> h ((b # xs) ! i)) \<and>
           (\<forall>j<i. h ((b # xs) ! j) < h ((b # xs) ! i))"
proof (induction xs rule: rev_induct)
  case Nil
  then show ?case by simp
next
  case (snoc x xs)
  let ?f = "\<lambda>bestIt oneIt. if h oneIt > h bestIt then oneIt else bestIt"
  from snoc obtain i where i: "i \<le> length xs" "foldl ?f b xs = (b # xs) ! i"
    "\<forall>j\<le>length xs. h ((b # xs) ! j) \<le> h ((b # xs) ! i)"
    "\<forall>j<i. h ((b # xs) ! j) < h ((b # xs) ! i)"
    by blast
  have nth_old: "(b # xs @ [x]) ! j = (b # xs) ! j" if "j \<le> length xs" for j
    using that by (cases j) (simp_all add: nth_append)
  have nth_new: "(b # xs @ [x]) ! Suc (length xs) = x"
    by simp
  show ?case
  proof (cases "h x > h ((b # xs) ! i)")
    case True
    have "foldl ?f b (xs @ [x]) = (b # xs @ [x]) ! Suc (length xs)"
      using True i(2) by simp
    moreover have "\<forall>j\<le>length (xs @ [x]). h ((b # xs @ [x]) ! j) \<le> h x"
    proof (intro allI impI)
      fix j assume "j \<le> length (xs @ [x])"
      then consider "j \<le> length xs" | "j = Suc (length xs)" by fastforce
      then show "h ((b # xs @ [x]) ! j) \<le> h x"
      proof cases
        case 1
        then show ?thesis using i(3) True nth_old [of j] by fastforce
      next
        case 2
        then show ?thesis by simp
      qed
    qed
    moreover have "\<forall>j<Suc (length xs). h ((b # xs @ [x]) ! j) < h x"
    proof (intro allI impI)
      fix j assume "j < Suc (length xs)"
      then have j: "j \<le> length xs" by simp
      then show "h ((b # xs @ [x]) ! j) < h x"
        using i(3) True nth_old [of j] by fastforce
    qed
    ultimately show ?thesis
      by (intro exI [of _ "Suc (length xs)"]) (simp del: nth_Cons_Suc add: nth_new)
  next
    case False
    have "foldl ?f b (xs @ [x]) = (b # xs @ [x]) ! i"
      using False i(1,2) nth_old [of i] by simp
    moreover have "\<forall>j\<le>length (xs @ [x]). h ((b # xs @ [x]) ! j) \<le> h ((b # xs @ [x]) ! i)"
    proof (intro allI impI)
      fix j assume "j \<le> length (xs @ [x])"
      then consider "j \<le> length xs" | "j = Suc (length xs)" by fastforce
      then show "h ((b # xs @ [x]) ! j) \<le> h ((b # xs @ [x]) ! i)"
      proof cases
        case 1
        then show ?thesis using i(1,3) nth_old [of j] nth_old [of i] by simp
      next
        case 2
        then show ?thesis using False i(1) nth_old [of i] by simp
      qed
    qed
    moreover have "\<forall>j<i. h ((b # xs @ [x]) ! j) < h ((b # xs @ [x]) ! i)"
    proof (intro allI impI)
      fix j assume "j < i"
      then show "h ((b # xs @ [x]) ! j) < h ((b # xs @ [x]) ! i)"
        using i(1,4) nth_old [of j] nth_old [of i] by simp
    qed
    ultimately show ?thesis
      using i(1) by (intro exI [of _ i]) simp
  qed
qed

lemma latest_confirmed_first_greatest:
  assumes "k < length xs"
    and "\<forall>j<length xs. blockHeight (snd (xs ! j)) \<le> blockHeight (snd (xs ! k))"
    and "\<forall>j<k. blockHeight (snd (xs ! j)) < blockHeight (snd (xs ! k))"
  shows "latest_confirmed xs = xs ! k"
proof -
  let ?h = "\<lambda>e. blockHeight (snd e)"
  from assms(1) obtain y ys where xs: "xs = y # ys" by (cases xs) auto
  from foldl_latest_index [where h = ?h and b = "hd xs" and xs = xs]
  obtain i where i: "i \<le> length xs" "latest_confirmed xs = (hd xs # xs) ! i"
    "\<forall>j\<le>length xs. ?h ((hd xs # xs) ! j) \<le> ?h ((hd xs # xs) ! i)"
    "\<forall>j<i. ?h ((hd xs # xs) ! j) < ?h ((hd xs # xs) ! i)"
    unfolding latest_confirmed_def by blast
  show ?thesis
  proof (cases i)
    case 0
    then have l: "latest_confirmed xs = xs ! 0" using i(2) xs by simp
    have "k = 0"
    proof (rule ccontr)
      assume "k \<noteq> 0"
      then have "?h (xs ! 0) < ?h (xs ! k)" using assms(3) by simp
      moreover have "?h ((hd xs # xs) ! Suc k) \<le> ?h ((hd xs # xs) ! i)"
        using i(3) assms(1) by (metis Suc_leI)
      ultimately show False using 0 xs by simp
    qed
    with l show ?thesis by simp
  next
    case (Suc m)
    then have m: "m < length xs" and l: "latest_confirmed xs = xs ! m" using i(1,2) by simp_all
    have "m = k"
    proof (rule ccontr)
      assume "m \<noteq> k"
      then consider "m < k" | "k < m" by linarith
      then show False
      proof cases
        case 1
        then have "?h (xs ! m) < ?h (xs ! k)" using assms(3) by simp
        moreover have "?h ((hd xs # xs) ! Suc k) \<le> ?h ((hd xs # xs) ! i)"
          using i(3) assms(1) by (metis Suc_leI)
        ultimately show False using Suc by simp
      next
        case 2
        then have "Suc k < i" using Suc by simp
        then have "?h ((hd xs # xs) ! Suc k) < ?h ((hd xs # xs) ! i)" using i(4) by blast
        moreover have "?h (xs ! m) \<le> ?h (xs ! k)" using assms(2) m by simp
        ultimately show False using Suc by simp
      qed
    qed
    with l show ?thesis by simp
  qed
qed

text \<open>
  Claim C5, as the code has it. The record for the local chain is made up only behind the
  guard of line 2383: the cached definition is valid, the queried currency is the local
  chain, and the node runs the Verus chain or the local height is 0. Then the query returns
  one fork of length 1 whose only entry is the record made from the current height, with
  best-chain and last-confirmed both 0, and nothing is read from the finalization index.
\<close>

theorem GetNotarizationData_local:
  assumes "cdValid (GetCachedCurrency env cid)"
    and "IsVerusActive env \<or> chainActive_Height env = 0"
    and "cid = ASSETCHAINS_CHAINID env"
  shows "GetNotarizationData (env\<lparr>GetAddressUnspent := anyIndex\<rparr>) cid wantTx =
           Inr (\<lparr>vtx = [(CUTXORef_null, local_notarization env cid)], forks = [[0]],
                 lastConfirmed = 0, bestChain = 0\<rparr>, []) \<and>
         notarizationHeight (local_notarization env cid) = chainActive_Height env \<and>
         proofRoots (local_notarization env cid) cid = Some (GetProofRoot env (chainActive_Height env))"
  using assms
  by (auto simp: GetNotarizationData_def seed_step_def single_fork_def local_notarization_def Let_def)

theorem GetNotarizationData_local_witness:
  "cdValid (GetCachedCurrency (ex_env [] [] []) 1) \<and> IsVerusActive (ex_env [] [] []) \<and>
   1 = ASSETCHAINS_CHAINID (ex_env [] [] []) \<and>
   (\<exists>n. GetNotarizationData (ex_env [] [] []) 1 False =
        Inr (\<lparr>vtx = [(CUTXORef_null, n)], forks = [[0]], lastConfirmed = 0, bestChain = 0\<rparr>, []) \<and>
      notarizationHeight n = 100)"
proof -
  let ?env = "ex_env [] [] [] :: nat externals"
  have a: "cdValid (GetCachedCurrency ?env 1)" "IsVerusActive ?env \<or> chainActive_Height ?env = 0"
    "1 = ASSETCHAINS_CHAINID ?env"
    by (simp_all add: ex_env_simps)
  have e: "?env\<lparr>GetAddressUnspent := GetAddressUnspent ?env\<rparr> = ?env"
    by simp
  have h: "chainActive_Height ?env = 100" by (simp add: ex_env_simps)
  from GetNotarizationData_local [OF a, of "GetAddressUnspent ?env" False]
  have "GetNotarizationData ?env 1 False =
           Inr (\<lparr>vtx = [(CUTXORef_null, local_notarization ?env 1)], forks = [[0]],
                 lastConfirmed = 0, bestChain = 0\<rparr>, []) \<and>
         notarizationHeight (local_notarization ?env 1) = 100"
    unfolding e h by simp
  then have "\<exists>n. GetNotarizationData ?env 1 False =
        Inr (\<lparr>vtx = [(CUTXORef_null, n)], forks = [[0]], lastConfirmed = 0, bestChain = 0\<rparr>, []) \<and>
      notarizationHeight n = 100"
    by (intro exI [of _ "local_notarization ?env 1"])
  with a show ?thesis by (simp add: ex_env_simps)
qed

text \<open>
  On a chain other than Verus, past height 0, the local currency takes the ordinary path:
  with the ledger of the scenario indexed under the local currency the query returns two
  forks; with an empty index it fails.
\<close>

theorem GetNotarizationData_local_counterexample:
  "7 = ASSETCHAINS_CHAINID (ex_env [] [] []\<lparr>ASSETCHAINS_CHAINID := 7, IsVerusActive := False\<rparr>) \<and>
   GetNotarizationData (ex_env [] [] []\<lparr>ASSETCHAINS_CHAINID := 7, IsVerusActive := False\<rparr>) 7 False
     = Inl No_starting_point \<and>
   (case GetNotarizationData
           (ex_env ex_confirmed ex_pending (ex_txs 1 5 5 3)\<lparr>ASSETCHAINS_CHAINID := 7, IsVerusActive := False\<rparr>)
           7 False of
      Inl e \<Rightarrow> False
    | Inr (nd, t) \<Rightarrow>
        map fst (vtx nd) = [ex_ref 10, ex_ref 11, ex_ref 12, ex_ref 13] \<and>
        forks nd = [[0, 1, 3], [0, 2]])"
  by code_simp




text \<open>
  Claim C9. The query fails only with the failure of the seed step: the currency definition
  is not found, or no confirmed finalization resolves to a valid notarization. Whenever the
  seed step yields a record the query succeeds, whatever the pending index holds: the seed
  stays entry 0 of \<^verbatim>\<open>vtx\<close>, there is at least one fork, and every fork is a non-empty path
  from entry 0.
\<close>

theorem GetNotarizationData_fails_only_at_seed:
  "(GetNotarizationData env cid wantTx = Inl e \<longrightarrow> seed_step env cid wantTx = Inl e) \<and>
   (seed_step env cid wantTx = Inr (done, nd, txs) \<longrightarrow>
      (\<exists>nd' txs'. GetNotarizationData env cid wantTx = Inr (nd', txs') \<and>
         vtx nd' \<noteq> [] \<and> hd (vtx nd') = hd (vtx nd) \<and> forks nd' \<noteq> [] \<and>
         (\<forall>f \<in> set (forks nd'). f \<noteq> [] \<and> hd f = 0 \<and> (\<forall>i \<in> set f. i < length (vtx nd'))) \<and>
         lastConfirmed nd' = 0))"
proof -
  have ok: "\<exists>nd' txs'. GetNotarizationData env cid wantTx = Inr (nd', txs') \<and>
         vtx nd' \<noteq> [] \<and> hd (vtx nd') = hd (vtx nd) \<and> forks nd' \<noteq> [] \<and>
         (\<forall>f \<in> set (forks nd'). f \<noteq> [] \<and> hd f = 0 \<and> (\<forall>i \<in> set f. i < length (vtx nd'))) \<and>
         lastConfirmed nd' = 0"
    if s: "seed_step env cid wantTx = Inr (fin, nd, txs)" for fin nd txs
  proof -
    obtain r n where nd: "nd = single_fork r n"
      using seed_step_single [OF s] by auto
    have rooted: "forks_rooted nd" by (simp add: nd forks_rooted_single_fork)
    show ?thesis
    proof (cases fin)
      case True
      then show ?thesis
        using s nd by (simp add: GetNotarizationData_def single_fork_def)
    next
      case False
      obtain nd' txs' where p: "pending_phase env cid wantTx (nd, txs) = (nd', txs')"
        by (cases "pending_phase env cid wantTx (nd, txs)") auto
      have r: "forks_rooted nd'" "\<exists>ys. vtx nd' = vtx nd @ ys" "lastConfirmed nd' = lastConfirmed nd"
        using pending_phase_rooted [OF rooted p] by auto
      have "vtx nd \<noteq> []" using nd by (simp add: single_fork_def)
      with r(2) have "hd (vtx nd') = hd (vtx nd)" by auto
      moreover have "GetNotarizationData env cid wantTx = Inr (nd', txs')"
        using s p False r(1) by (simp add: GetNotarizationData_def forks_rooted_def)
      ultimately show ?thesis
        using r(1,3) nd by (auto simp: forks_rooted_def single_fork_def)
    qed
  qed
  have "seed_step env cid wantTx = Inl e" if f: "GetNotarizationData env cid wantTx = Inl e"
  proof (cases "seed_step env cid wantTx")
    case (Inl e')
    with f show ?thesis by (simp add: GetNotarizationData_def)
  next
    case (Inr x)
    then obtain fin nd txs where "seed_step env cid wantTx = Inr (fin, nd, txs)"
      by (cases x) auto
    from ok [OF this] f show ?thesis by auto
  qed
  with ok show ?thesis by blast
qed

theorem GetNotarizationData_fails_only_at_seed_witness:
  "GetNotarizationData (ex_env [] [] []) 7 False = Inl No_starting_point \<and>
   seed_step (ex_env [] [] []) 7 False = Inl No_starting_point \<and>
   seed_step (ex_env ex_confirmed [ex_entry 99 (ex_script_f (ex_ref 0)) 60] (ex_txs 1 0 0 0)) 7 False
     = Inr (False, single_fork (ex_ref 10) (ex_R 1), []) \<and>
   (\<exists>nd' txs'.
      GetNotarizationData (ex_env ex_confirmed [ex_entry 99 (ex_script_f (ex_ref 0)) 60] (ex_txs 1 0 0 0)) 7 False
        = Inr (nd', txs') \<and>
      vtx nd' \<noteq> [] \<and> hd (vtx nd') = (ex_ref 10, ex_R 1) \<and> forks nd' \<noteq> [] \<and>
      (\<forall>f \<in> set (forks nd'). f \<noteq> [] \<and> hd f = 0 \<and> (\<forall>i \<in> set f. i < length (vtx nd'))) \<and>
      lastConfirmed nd' = 0)"
proof -
  let ?none = "ex_env [] [] [] :: nat externals"
  let ?env = "ex_env ex_confirmed [ex_entry 99 (ex_script_f (ex_ref 0)) 60] (ex_txs 1 0 0 0) :: nat externals"
  have f: "GetNotarizationData ?none 7 False = Inl No_starting_point"
    by (simp add: GetNotarizationData_def seed_step_def ex_env_simps Let_def)
  have s: "seed_step ?env 7 False = Inr (False, single_fork (ex_ref 10) (ex_R 1), [])"
    by (simp add: seed_step_def seed_confirmed_def ex_env_simps latest_confirmed_def ex_confirmed_def
        ex_entry_def ex_script_f_def ex_ref_def ex_txs_def ex_tx_def ex_script_n_def Let_def)
  have h: "hd (vtx (single_fork (ex_ref 10) (ex_R 1))) = (ex_ref 10, ex_R 1)"
    by (simp add: single_fork_def)
  show ?thesis
    using GetNotarizationData_fails_only_at_seed [of ?none 7 False No_starting_point False undefined undefined]
      GetNotarizationData_fails_only_at_seed [of ?env 7 False undefined False "single_fork (ex_ref 10) (ex_R 1)" "[]"]
      f s h
    by simp
qed



text \<open>
  Claim C10, as the code has it. The currency is a token (and not the local chain made up at
  line 2383), and the most recent unspent confirmed entry, the first entry of the greatest
  block height in the confirmed index, is itself an earned or accepted notarization output
  that deserialises to a valid record. Then the pending index is never read: the outcome
  of the query is the same whatever the pending index of the currency holds. When the
  caller does not ask for the transactions, the query returns at line 2507 with that record
  as the only entry and one fork of length 1. When the caller asks for them, it does so
  only if the transaction of the entry can be read and holds a valid notarization at that
  output; otherwise the query fails at line 2493 or line 2501.
\<close>

theorem GetNotarizationData_legacy_token:
  assumes "cdValid (GetCachedCurrency env cid)" "IsToken (GetCachedCurrency env cid)"
    and "\<not> ((IsVerusActive env \<or> chainActive_Height env = 0) \<and> cid = ASSETCHAINS_CHAINID env)"
    and "GetAddressUnspent env (ConfirmedNotarizationKey cid) = (True, confirmed)"
    and "k < length confirmed"
    and "\<forall>j<length confirmed. blockHeight (snd (confirmed ! j)) \<le> blockHeight (snd (confirmed ! k))"
    and "\<forall>j<k. blockHeight (snd (confirmed ! j)) < blockHeight (snd (confirmed ! k))"
    and "p2cc (script (snd (confirmed ! k))) = Some p"
    and "ccValid p" "evalCode p = EVAL_EARNEDNOTARIZATION \<or> evalCode p = EVAL_ACCEPTEDNOTARIZATION"
    and "vData p \<noteq> []" "asNotarization (vData p ! 0) = Some n"
    and "txInfo = \<lparr>utxo_hash = u_txhash (fst (confirmed ! k)),
                    utxo_n = of_nat (u_index (fst (confirmed ! k)))\<rparr>"
    and "nd = \<lparr>vtx = [(txInfo, n)], forks = [[0]], lastConfirmed = 0, bestChain = 0\<rparr>"
  shows "GetNotarizationData
           (env\<lparr>GetAddressUnspent := (GetAddressUnspent env)(PendingNotarizationKey cid := pending)\<rparr>)
           cid wantTx
         = GetNotarizationData env cid wantTx \<and>
         GetNotarizationData env cid False = Inr (nd, []) \<and>
         (\<forall>nTx blkHash n'.
            myGetTransaction env (utxo_hash txInfo) = Some (nTx, blkHash) \<and>
            unat (utxo_n txInfo) < length (vout nTx) \<and>
            scriptNotarization (scriptPubKey (vout nTx ! unat (utxo_n txInfo))) = Some n' \<longrightarrow>
            GetNotarizationData env cid True = Inr (nd, [(nTx, blkHash)])) \<and>
         (\<not> (\<exists>nTx blkHash n'.
               myGetTransaction env (utxo_hash txInfo) = Some (nTx, blkHash) \<and>
               unat (utxo_n txInfo) < length (vout nTx) \<and>
               scriptNotarization (scriptPubKey (vout nTx ! unat (utxo_n txInfo))) = Some n') \<longrightarrow>
            GetNotarizationData env cid True = Inl Cannot_retrieve_transaction \<or>
            GetNotarizationData env cid True = Inl Invalid_notarization)"
proof -
  let ?env = "env\<lparr>GetAddressUnspent := (GetAddressUnspent env)(PendingNotarizationKey cid := pending)\<rparr>"
  have latest: "latest_confirmed confirmed = confirmed ! k"
    using assms(5,6,7) by (rule latest_confirmed_first_greatest)
  have ne: "confirmed \<noteq> []"
    using assms(5) by auto
  have m: "myGetTransaction ?env = myGetTransaction env"
    by simp
  have sc: "seed_confirmed ?env c w e = seed_confirmed env c w e" for c w e
    unfolding seed_confirmed_def m ..
  have ss: "seed_step ?env cid w = seed_step env cid w" for w
    using assms(1,3,4) by (auto simp: seed_step_def Let_def sc)
  have fin: "fin" if "seed_step env cid w = Inr (fin, d, t)" for w fin d t
    using that assms(1,2,3,4,8-12) ne
    by (auto simp: seed_step_def seed_confirmed_def Let_def latest
        split: if_splits option.splits prod.splits)
  have g: "GetNotarizationData e cid w =
      (case seed_step e cid w of Inl x \<Rightarrow> Inl x | Inr (fin, d, t) \<Rightarrow> Inr (d, t))"
    if "seed_step e cid w = seed_step env cid w" for e w
    using that fin [of w]
    by (cases "seed_step env cid w") (auto simp: GetNotarizationData_def)
  have indep: "GetNotarizationData ?env cid wantTx = GetNotarizationData env cid wantTx"
    using g [of ?env wantTx] g [of env wantTx] ss [of wantTx] by simp
  have f: "seed_step env cid False = Inr (True, nd, [])"
    using assms(1-4,8-14) ne
    by (auto simp: seed_step_def seed_confirmed_def Let_def latest single_fork_def)
  have nowant: "GetNotarizationData env cid False = Inr (nd, [])"
    using g [of env False] f by simp
  have want: "GetNotarizationData env cid True = Inr (nd, [(nTx, blkHash)])"
    if "myGetTransaction env (utxo_hash txInfo) = Some (nTx, blkHash)"
      "unat (utxo_n txInfo) < length (vout nTx)"
      "scriptNotarization (scriptPubKey (vout nTx ! unat (utxo_n txInfo))) = Some n'"
    for nTx blkHash n'
  proof -
    have "seed_step env cid True = Inr (True, nd, [(nTx, blkHash)])"
      using assms(1-4,8-14) ne that
      by (auto simp: seed_step_def seed_confirmed_def Let_def latest single_fork_def)
    then show ?thesis
      using g [of env True] by simp
  qed
  have bad: "GetNotarizationData env cid True = Inl Cannot_retrieve_transaction \<or>
            GetNotarizationData env cid True = Inl Invalid_notarization"
    if "\<not> (\<exists>nTx blkHash n'.
               myGetTransaction env (utxo_hash txInfo) = Some (nTx, blkHash) \<and>
               unat (utxo_n txInfo) < length (vout nTx) \<and>
               scriptNotarization (scriptPubKey (vout nTx ! unat (utxo_n txInfo))) = Some n')"
  proof -
    have "seed_step env cid True = Inl Cannot_retrieve_transaction \<or>
          seed_step env cid True = Inl Invalid_notarization"
      using assms(1-4,8-14) ne that
      by (auto simp: seed_step_def seed_confirmed_def Let_def latest
          split: option.splits)
    then show ?thesis
      using g [of env True] by auto
  qed
  from indep nowant want bad show ?thesis by blast
qed

theorem GetNotarizationData_legacy_token_witness:
  "cdValid (GetCachedCurrency ex_token_env 7) \<and> IsToken (GetCachedCurrency ex_token_env 7) \<and>
   \<not> ((IsVerusActive ex_token_env \<or> chainActive_Height ex_token_env = 0) \<and> 7 = ASSETCHAINS_CHAINID ex_token_env) \<and>
   GetAddressUnspent ex_token_env (ConfirmedNotarizationKey 7) = (True, ex_token_confirmed) \<and>
   map (\<lambda>e. (u_txhash (fst e), blockHeight (snd e))) ex_token_confirmed = [(9, 40), (10, 50), (14, 50)] \<and>
   p2cc (script (snd (ex_token_confirmed ! 1)))
     = Some \<lparr>ccValid = True, version = 3, evalCode = EVAL_EARNEDNOTARIZATION,
             vData = [\<lparr>asFinalization = \<lparr>fValid = False, fin_output = CUTXORef_null\<rparr>,
                       asNotarization = Some (ex_R 1), asReserveTransfer = None,
                       asMasterValid = False\<rparr>]\<rparr> \<and>
   myGetTransaction ex_token_env 10 = Some (ex_tx (ex_R 1)) \<and>
   GetNotarizationData
       (ex_token_env\<lparr>GetAddressUnspent :=
          (GetAddressUnspent ex_token_env)(PendingNotarizationKey 7 := (True, ex_pending))\<rparr>)
       7 True
     = Inr (\<lparr>vtx = [(ex_ref 10, ex_R 1)], forks = [[0]], lastConfirmed = 0, bestChain = 0\<rparr>,
            [ex_tx (ex_R 1)]) \<and>
   GetNotarizationData ex_token_env 7 False
     = Inr (\<lparr>vtx = [(ex_ref 10, ex_R 1)], forks = [[0]], lastConfirmed = 0, bestChain = 0\<rparr>, [])"
proof -
  let ?p = "\<lparr>ccValid = True, version = 3, evalCode = EVAL_EARNEDNOTARIZATION,
             vData = [\<lparr>asFinalization = \<lparr>fValid = False, fin_output = CUTXORef_null\<rparr>,
                       asNotarization = Some (ex_R 1), asReserveTransfer = None,
                       asMasterValid = False\<rparr>]\<rparr>"
  let ?c = "ex_token_confirmed"
  let ?nd = "\<lparr>vtx = [(ex_ref 10, ex_R 1)], forks = [[0]], lastConfirmed = 0, bestChain = 0\<rparr>"
  have a1: "cdValid (GetCachedCurrency ex_token_env 7)" and a2: "IsToken (GetCachedCurrency ex_token_env 7)"
    by (simp_all add: ex_token_env_def)
  have a3: "\<not> ((IsVerusActive ex_token_env \<or> chainActive_Height ex_token_env = 0) \<and> 7 = ASSETCHAINS_CHAINID ex_token_env)"
    by (simp add: ex_token_env_def ex_env_simps)
  have a4: "GetAddressUnspent ex_token_env (ConfirmedNotarizationKey 7) = (True, ?c)"
    by (simp add: ex_token_env_def ex_env_simps)
  have hs: "map (\<lambda>e. (u_txhash (fst e), blockHeight (snd e))) ?c = [(9, 40), (10, 50), (14, 50)]"
    by (simp add: ex_token_confirmed_def ex_entry_def)
  have a5: "1 < length ?c"
    by (simp add: ex_token_confirmed_def)
  have a6: "\<forall>j<length ?c. blockHeight (snd (?c ! j)) \<le> blockHeight (snd (?c ! 1))"
    by (simp add: ex_token_confirmed_def ex_entry_def less_Suc_eq numeral_3_eq_3)
  have a7: "\<forall>j<1. blockHeight (snd (?c ! j)) < blockHeight (snd (?c ! 1))"
    by (simp add: ex_token_confirmed_def ex_entry_def)
  have a8: "p2cc (script (snd (?c ! 1))) = Some ?p"
    by (simp add: ex_token_confirmed_def ex_entry_def ex_script_n_def)
  have a9: "ccValid ?p" "evalCode ?p = EVAL_EARNEDNOTARIZATION \<or> evalCode ?p = EVAL_ACCEPTEDNOTARIZATION"
    "vData ?p \<noteq> []" "asNotarization (vData ?p ! 0) = Some (ex_R 1)"
    by simp_all
  have a10: "ex_ref 10 = \<lparr>utxo_hash = u_txhash (fst (?c ! 1)), utxo_n = of_nat (u_index (fst (?c ! 1)))\<rparr>"
    by (simp add: ex_token_confirmed_def ex_entry_def ex_ref_def)
  have a11: "?nd = \<lparr>vtx = [(ex_ref 10, ex_R 1)], forks = [[0]], lastConfirmed = 0, bestChain = 0\<rparr>"
    by simp
  have t: "myGetTransaction ex_token_env 10 = Some (ex_tx (ex_R 1))"
    by (simp add: ex_token_env_def ex_env_simps ex_txs_def)
  have r: "myGetTransaction ex_token_env (utxo_hash (ex_ref 10)) = Some (fst (ex_tx (ex_R 1)), snd (ex_tx (ex_R 1))) \<and>
      unat (utxo_n (ex_ref 10)) < length (vout (fst (ex_tx (ex_R 1)))) \<and>
      scriptNotarization (scriptPubKey (vout (fst (ex_tx (ex_R 1))) ! unat (utxo_n (ex_ref 10)))) = Some (ex_R 1)"
    using t by (simp add: ex_ref_def ex_tx_def ex_script_n_def)
  note inst = GetNotarizationData_legacy_token [OF a1 a2 a3 a4 a5 a6 a7 a8 a9 a10 a11]
  have w: "GetNotarizationData ex_token_env 7 True = Inr (?nd, [ex_tx (ex_R 1)])"
    using inst [THEN conjunct2, THEN conjunct2, THEN conjunct1, rule_format, OF r] by simp
  have i: "GetNotarizationData
       (ex_token_env\<lparr>GetAddressUnspent :=
          (GetAddressUnspent ex_token_env)(PendingNotarizationKey 7 := (True, ex_pending))\<rparr>)
       7 True = GetNotarizationData ex_token_env 7 True"
    by (rule inst [THEN conjunct1])
  have f: "GetNotarizationData ex_token_env 7 False = Inr (?nd, [])"
    by (rule inst [THEN conjunct2, THEN conjunct1])
  show ?thesis
    using a1 a2 a3 a4 hs a8 t w i f by simp
qed

text \<open>
  The same token and the same confirmed index, with pending finalizations indexed, when the
  transaction of the entry cannot be read and the caller asks for the transactions: the
  query fails instead of returning the one record. (By then the code has stored the record
  in its output argument, lines 2480 to 2483, but it reports failure to the caller.)
\<close>

theorem GetNotarizationData_legacy_token_counterexample:
  "IsToken (GetCachedCurrency (ex_token_env\<lparr>myGetTransaction := (\<lambda>h. None)\<rparr>) 7) \<and>
   map (\<lambda>e. (u_txhash (fst e), blockHeight (snd e), map_option evalCode (p2cc (script (snd e)))))
       (snd (GetAddressUnspent (ex_token_env\<lparr>myGetTransaction := (\<lambda>h. None)\<rparr>) (ConfirmedNotarizationKey 7)))
     = [(9, 40, Some EVAL_FINALIZE_NOTARIZATION), (10, 50, Some EVAL_EARNEDNOTARIZATION),
        (14, 50, Some EVAL_EARNEDNOTARIZATION)] \<and>
   (case GetNotarizationData
           (ex_token_env\<lparr>myGetTransaction := (\<lambda>h. None),
              GetAddressUnspent :=
                (GetAddressUnspent ex_token_env)(PendingNotarizationKey 7 := (True, ex_pending))\<rparr>)
           7 True of
      Inl e \<Rightarrow> e = Cannot_retrieve_transaction
    | Inr r \<Rightarrow> False)"
  by code_simp


section \<open>Best-chain selection\<close>

text \<open>
  The expanded power of the tip of fork \<open>i\<close>, when that tip has a proof root for the
  queried currency: the value that line 2628 compares.
\<close>

definition tip_power :: "('p, 'z) externals_scheme \<Rightarrow> uint160 \<Rightarrow> CChainNotarizationData \<Rightarrow> nat \<Rightarrow> 'p option" where
  "tip_power env cid nd i =
     map_option (\<lambda>root. ExpandCompactPower env (compactPower root) i)
       (proofRoots (snd (vtx nd ! last (forks nd ! i))) cid)"

text \<open>The state of the selection loop after the first \<open>n\<close> forks.\<close>

definition best_upto :: "('p, 'z) externals_scheme \<Rightarrow> uint160 \<Rightarrow> CChainNotarizationData \<Rightarrow> nat \<Rightarrow> 'p \<times> nat" where
  "best_upto env cid nd n = foldl (best_step env cid nd) (default_power env, 0) [0..<n]"

lemma best_upto_0: "best_upto env cid nd 0 = (default_power env, 0)"
  by (simp add: best_upto_def)

lemma best_upto_Suc:
  "best_upto env cid nd (Suc n) =
     (case tip_power env cid nd n of
        None \<Rightarrow> best_upto env cid nd n
      | Some p \<Rightarrow> if power_gt env p (fst (best_upto env cid nd n)) then (p, n) else best_upto env cid nd n)"
  by (cases "best_upto env cid nd n")
     (simp add: best_upto_def best_step_def tip_power_def Let_def split: option.splits)

lemma select_best_upto: "select_best env cid nd = snd (best_upto env cid nd (length (forks nd)))"
  by (simp add: select_best_def best_upto_def)

lemma best_upto_ranked:
  fixes rank :: "'p \<Rightarrow> 'r::linorder"
  assumes rank: "\<And>a b. power_gt env a b \<longleftrightarrow> rank b < rank a"
  shows "(best_upto env cid nd n = (default_power env, 0) \<and>
          (\<forall>i<n. \<forall>p. tip_power env cid nd i = Some p \<longrightarrow> rank p \<le> rank (default_power env))) \<or>
         (snd (best_upto env cid nd n) < n \<and>
          tip_power env cid nd (snd (best_upto env cid nd n)) = Some (fst (best_upto env cid nd n)) \<and>
          rank (default_power env) < rank (fst (best_upto env cid nd n)) \<and>
          (\<forall>i<n. \<forall>p. tip_power env cid nd i = Some p \<longrightarrow>
              rank p \<le> rank (fst (best_upto env cid nd n)) \<and>
              (i < snd (best_upto env cid nd n) \<longrightarrow> rank p < rank (fst (best_upto env cid nd n)))))"
    (is "?zero n \<or> ?found n")
proof (induction n)
  case 0
  then show ?case by (simp add: best_upto_0)
next
  case (Suc n)
  show ?case
  proof (cases "tip_power env cid nd n")
    case None
    then have same: "best_upto env cid nd (Suc n) = best_upto env cid nd n"
      by (simp add: best_upto_Suc)
    from Suc.IH show ?thesis
    proof
      assume "?zero n"
      then have "?zero (Suc n)" using None by (auto simp: same less_Suc_eq)
      then show ?thesis ..
    next
      assume "?found n"
      then have "?found (Suc n)" using None by (auto simp: same less_Suc_eq)
      then show ?thesis ..
    qed
  next
    case (Some p)
    show ?thesis
    proof (cases "power_gt env p (fst (best_upto env cid nd n))")
      case True
      then have new: "best_upto env cid nd (Suc n) = (p, n)"
        using Some by (simp add: best_upto_Suc)
      have gt: "rank (fst (best_upto env cid nd n)) < rank p" using True rank by simp
      from Suc.IH have "?found (Suc n)"
      proof
        assume "?zero n"
        then show ?thesis using Some gt by (fastforce simp: new less_Suc_eq)
      next
        assume "?found n"
        then show ?thesis using Some gt by (fastforce simp: new less_Suc_eq)
      qed
      then show ?thesis ..
    next
      case False
      then have same: "best_upto env cid nd (Suc n) = best_upto env cid nd n"
        using Some by (simp add: best_upto_Suc)
      have le: "rank p \<le> rank (fst (best_upto env cid nd n))" using False rank by (simp add: not_less)
      from Suc.IH show ?thesis
      proof
        assume "?zero n"
        then have "?zero (Suc n)" using Some le by (auto simp: same less_Suc_eq)
        then show ?thesis ..
      next
        assume "?found n"
        then have "?found (Suc n)" using Some le by (auto simp: same less_Suc_eq)
        then show ?thesis ..
      qed
    qed
  qed
qed

lemma best_upto_equal_power:
  assumes eq: "\<forall>i<m. \<forall>j<m. \<forall>p q. tip_power env cid nd i = Some p \<longrightarrow> tip_power env cid nd j = Some q \<longrightarrow>
                 \<not> power_gt env q p"
  shows "n \<le> m \<Longrightarrow>
         (best_upto env cid nd n = (default_power env, 0) \<and>
          (\<forall>i<n. \<forall>p. tip_power env cid nd i = Some p \<longrightarrow> \<not> power_gt env p (default_power env))) \<or>
         (snd (best_upto env cid nd n) < n \<and>
          tip_power env cid nd (snd (best_upto env cid nd n)) = Some (fst (best_upto env cid nd n)) \<and>
          power_gt env (fst (best_upto env cid nd n)) (default_power env) \<and>
          (\<forall>i p. i < snd (best_upto env cid nd n) \<longrightarrow> tip_power env cid nd i = Some p \<longrightarrow>
              \<not> power_gt env p (default_power env)))"
    (is "_ \<Longrightarrow> ?zero n \<or> ?found n")
proof (induction n)
  case 0
  then show ?case by (simp add: best_upto_0)
next
  case (Suc n)
  then have IH: "?zero n \<or> ?found n" and n: "n < m" by simp_all
  show ?case
  proof (cases "tip_power env cid nd n")
    case None
    then have same: "best_upto env cid nd (Suc n) = best_upto env cid nd n"
      by (simp add: best_upto_Suc)
    from IH show ?thesis
    proof
      assume "?zero n"
      then have "?zero (Suc n)" using None by (auto simp: same less_Suc_eq)
      then show ?thesis ..
    next
      assume "?found n"
      then have "?found (Suc n)" by (auto simp: same less_Suc_eq)
      then show ?thesis ..
    qed
  next
    case (Some p)
    from IH show ?thesis
    proof
      assume z: "?zero n"
      show ?thesis
      proof (cases "power_gt env p (default_power env)")
        case True
        then have "best_upto env cid nd (Suc n) = (p, n)"
          using Some z by (simp add: best_upto_Suc)
        then have "?found (Suc n)" using Some True z by simp
        then show ?thesis ..
      next
        case False
        then have "best_upto env cid nd (Suc n) = best_upto env cid nd n"
          using Some z by (simp add: best_upto_Suc)
        then have "?zero (Suc n)" using Some False z by (auto simp: less_Suc_eq)
        then show ?thesis ..
      qed
    next
      assume f: "?found n"
      then have "snd (best_upto env cid nd n) < m" using n by simp
      then have "\<not> power_gt env p (fst (best_upto env cid nd n))"
        using eq n Some f by blast
      then have "best_upto env cid nd (Suc n) = best_upto env cid nd n"
        using Some by (simp add: best_upto_Suc)
      then have "?found (Suc n)" using f by (auto simp: less_Suc_eq)
      then show ?thesis ..
    qed
  qed
qed


lemma best_step_bestChain_update [simp]:
  "best_step env cid (nd\<lparr>bestChain := b\<rparr>) = best_step env cid nd"
  by (simp add: fun_eq_iff best_step_def)

lemma select_best_bestChain_update [simp]:
  "select_best env cid (nd\<lparr>bestChain := b\<rparr>) = select_best env cid nd"
  by (simp add: select_best_def)

lemma tip_power_bestChain_update [simp]:
  "tip_power env cid (nd\<lparr>bestChain := b\<rparr>) i = tip_power env cid nd i"
  by (simp add: tip_power_def)

lemma select_best_no_root:
  assumes "\<forall>i<length (forks nd). tip_power env cid nd i = None"
  shows "select_best env cid nd = 0"
proof -
  have "\<forall>i<length (forks nd). \<forall>j<length (forks nd). \<forall>p q. tip_power env cid nd i = Some p \<longrightarrow>
          tip_power env cid nd j = Some q \<longrightarrow> \<not> power_gt env q p"
    using assms by simp
  from best_upto_equal_power [OF this, of "length (forks nd)"] assms
  show ?thesis by (auto simp: select_best_upto)
qed

text \<open>The query after a successful seed step: the seed data, or what the pending phase makes of it.\<close>

lemma GetNotarizationData_after_seed:
  assumes s: "seed_step env cid wantTx = Inr (fin, nd, txs)"
  shows "GetNotarizationData env cid wantTx =
           Inr (if fin then (nd, txs) else pending_phase env cid wantTx (nd, txs))"
proof (cases fin)
  case True
  with s show ?thesis by (simp add: GetNotarizationData_def)
next
  case False
  obtain r n where nd: "nd = single_fork r n"
    using seed_step_single [OF s] by auto
  obtain nd' txs' where p: "pending_phase env cid wantTx (nd, txs) = (nd', txs')"
    by (cases "pending_phase env cid wantTx (nd, txs)") auto
  have "forks_rooted nd'"
    using pending_phase_rooted [OF _ p] nd forks_rooted_single_fork by simp
  then show ?thesis
    using s p False by (simp add: GetNotarizationData_def forks_rooted_def)
qed

lemma pending_phase_bestChain:
  assumes p: "pending_phase env cid wantTx (nd, txs) = (nd', txs')"
  shows "(if fst (GetAddressUnspent env (PendingNotarizationKey cid)) \<and>
             snd (GetAddressUnspent env (PendingNotarizationKey cid)) \<noteq> []
          then bestChain nd' = select_best env cid nd' else nd' = nd)"
  using p by (auto simp: pending_phase_def Let_def split: prod.splits)

text \<open>
  Claim C1, as the code has it. The best-chain index starts at 0 and moves to fork \<open>i\<close> only
  when the tip of fork \<open>i\<close> has a proof root for the queried currency and its expanded power
  is greater than the best so far, which starts at the default power. When \<^verbatim>\<open>operator>\<close>
  compares a rank: if some fork with a proof root has power above the default, the index
  names the first fork of highest power among exactly the forks with a proof root;
  otherwise, and so whenever no fork has a proof root, the index stays 0. The query does not
  fail for want of a proof root: after a successful seed it returns true, with the selected
  index when pending finalizations are indexed, and with index 0 when no tip has a proof
  root.
\<close>

theorem select_best_names_highest_power:
  fixes rank :: "'p \<Rightarrow> 'r::linorder"
  assumes "\<And>a b. power_gt env a b \<longleftrightarrow> rank b < rank a"
  shows "((\<exists>i<length (forks nd). \<exists>p. tip_power env cid nd i = Some p \<and> rank (default_power env) < rank p) \<longrightarrow>
            select_best env cid nd < length (forks nd) \<and>
            (\<exists>p. tip_power env cid nd (select_best env cid nd) = Some p \<and>
                 (\<forall>j<length (forks nd). \<forall>q. tip_power env cid nd j = Some q \<longrightarrow>
                     rank q \<le> rank p \<and> (j < select_best env cid nd \<longrightarrow> rank q < rank p)))) \<and>
         ((\<forall>i<length (forks nd). \<forall>p. tip_power env cid nd i = Some p \<longrightarrow> rank p \<le> rank (default_power env)) \<longrightarrow>
            select_best env cid nd = 0) \<and>
         (seed_step env cid wantTx = Inr (fin, nd0, txs) \<longrightarrow>
            (\<exists>nd' txs'. GetNotarizationData env cid wantTx = Inr (nd', txs') \<and>
               (\<not> fin \<and> fst (GetAddressUnspent env (PendingNotarizationKey cid)) \<and>
                snd (GetAddressUnspent env (PendingNotarizationKey cid)) \<noteq> [] \<longrightarrow>
                  bestChain nd' = select_best env cid nd') \<and>
               ((\<forall>i<length (forks nd'). tip_power env cid nd' i = None) \<longrightarrow> bestChain nd' = 0)))"
proof (intro conjI impI)
  let ?n = "length (forks nd)"
  note r = best_upto_ranked [of env rank cid nd ?n, OF assms]
  {
    assume "\<exists>i<?n. \<exists>p. tip_power env cid nd i = Some p \<and> rank (default_power env) < rank p"
    then have f: "snd (best_upto env cid nd ?n) < ?n \<and>
          tip_power env cid nd (snd (best_upto env cid nd ?n)) = Some (fst (best_upto env cid nd ?n)) \<and>
          (\<forall>i<?n. \<forall>p. tip_power env cid nd i = Some p \<longrightarrow>
              rank p \<le> rank (fst (best_upto env cid nd ?n)) \<and>
              (i < snd (best_upto env cid nd ?n) \<longrightarrow> rank p < rank (fst (best_upto env cid nd ?n))))"
      using r by (auto simp: not_le [symmetric])
    then show "select_best env cid nd < ?n" by (simp add: select_best_upto)
    from f show "\<exists>p. tip_power env cid nd (select_best env cid nd) = Some p \<and>
                 (\<forall>j<?n. \<forall>q. tip_power env cid nd j = Some q \<longrightarrow>
                     rank q \<le> rank p \<and> (j < select_best env cid nd \<longrightarrow> rank q < rank p))"
      by (simp add: select_best_upto)
  }
  {
    assume z: "\<forall>i<?n. \<forall>p. tip_power env cid nd i = Some p \<longrightarrow> rank p \<le> rank (default_power env)"
    from r show "select_best env cid nd = 0"
    proof
      assume "best_upto env cid nd ?n = (default_power env, 0) \<and>
          (\<forall>i<?n. \<forall>p. tip_power env cid nd i = Some p \<longrightarrow> rank p \<le> rank (default_power env))"
      then show ?thesis by (simp add: select_best_upto)
    next
      assume "snd (best_upto env cid nd ?n) < ?n \<and>
          tip_power env cid nd (snd (best_upto env cid nd ?n)) = Some (fst (best_upto env cid nd ?n)) \<and>
          rank (default_power env) < rank (fst (best_upto env cid nd ?n)) \<and>
          (\<forall>i<?n. \<forall>p. tip_power env cid nd i = Some p \<longrightarrow>
              rank p \<le> rank (fst (best_upto env cid nd ?n)) \<and>
              (i < snd (best_upto env cid nd ?n) \<longrightarrow> rank p < rank (fst (best_upto env cid nd ?n))))"
      with z have False by (auto simp: not_le [symmetric])
      then show ?thesis ..
    qed
  }
  {
    assume s: "seed_step env cid wantTx = Inr (fin, nd0, txs)"
    obtain r0 n0 where nd0: "nd0 = single_fork r0 n0"
      using seed_step_single [OF s] by auto
    obtain nd' txs' where p: "pending_phase env cid wantTx (nd0, txs) = (nd', txs')"
      by (cases "pending_phase env cid wantTx (nd0, txs)") auto
    note g = GetNotarizationData_after_seed [OF s]
    note b = pending_phase_bestChain [OF p]
    show "\<exists>nd' txs'. GetNotarizationData env cid wantTx = Inr (nd', txs') \<and>
               (\<not> fin \<and> fst (GetAddressUnspent env (PendingNotarizationKey cid)) \<and>
                snd (GetAddressUnspent env (PendingNotarizationKey cid)) \<noteq> [] \<longrightarrow>
                  bestChain nd' = select_best env cid nd') \<and>
               ((\<forall>i<length (forks nd'). tip_power env cid nd' i = None) \<longrightarrow> bestChain nd' = 0)"
    proof (cases fin)
      case True
      then show ?thesis using g nd0 by (simp add: single_fork_def)
    next
      case False
      have "(\<forall>i<length (forks nd'). tip_power env cid nd' i = None) \<longrightarrow> bestChain nd' = 0"
        using b nd0 select_best_no_root [of nd' env cid]
        by (auto simp: single_fork_def split: if_splits)
      then show ?thesis using g p b False by (auto split: if_splits)
    qed
  }
qed

text \<open>
  Claim C7, as the code has it. When no tip with a proof root has more power than another,
  the selection picks the lowest index among the forks whose tip has a proof root and power
  above the default: the selected index is at most the index of every such fork and, when
  there is one, is itself such a fork; when there is none, the selected index is 0. An index
  is a position in the order of discovery, so the selected tip is not invariant under a
  permutation of that order, as the two runs after the theorem show.
\<close>

theorem select_best_equal_power_lowest_index:
  assumes "\<forall>i<length (forks nd). \<forall>j<length (forks nd). \<forall>p q.
             tip_power env cid nd i = Some p \<longrightarrow> tip_power env cid nd j = Some q \<longrightarrow> \<not> power_gt env q p"
  shows "(\<forall>j<length (forks nd). \<forall>q. tip_power env cid nd j = Some q \<and> power_gt env q (default_power env) \<longrightarrow>
            select_best env cid nd \<le> j \<and>
            (\<exists>p. tip_power env cid nd (select_best env cid nd) = Some p \<and> power_gt env p (default_power env))) \<and>
         ((\<forall>j<length (forks nd). \<forall>q. tip_power env cid nd j = Some q \<longrightarrow> \<not> power_gt env q (default_power env)) \<longrightarrow>
            select_best env cid nd = 0)"
proof -
  let ?n = "length (forks nd)"
  let ?b = "best_upto env cid nd ?n"
  from best_upto_equal_power [OF assms, of ?n]
  consider (zero) "?b = (default_power env, 0)"
      "\<forall>i<?n. \<forall>p. tip_power env cid nd i = Some p \<longrightarrow> \<not> power_gt env p (default_power env)"
    | (found) "snd ?b < ?n" "tip_power env cid nd (snd ?b) = Some (fst ?b)"
      "power_gt env (fst ?b) (default_power env)"
      "\<forall>i p. i < snd ?b \<longrightarrow> tip_power env cid nd i = Some p \<longrightarrow> \<not> power_gt env p (default_power env)"
    by auto
  then show ?thesis
  proof cases
    case zero
    then show ?thesis by (auto simp: select_best_upto)
  next
    case found
    have "select_best env cid nd \<le> j"
      if "j < ?n" "tip_power env cid nd j = Some q" "power_gt env q (default_power env)" for j q
      using found(4) that by (fastforce simp: select_best_upto not_less [symmetric])
    then show ?thesis
      using found(1,2,3) by (auto simp: select_best_upto)
  qed
qed

lemma ex_two_forks_tip_power:
  "tip_power (ex_env c p t) 7 (ex_two_forks r p1 p2) 0 = Some (unat p1)"
  "tip_power (ex_env c p t) 7 (ex_two_forks r p1 p2) (Suc 0) = Some (unat p2)"
  by (simp_all add: tip_power_def ex_two_forks_def ex_env_simps ex_P1_def ex_P2_def
      ex_notarization_def ex_root_def)

theorem select_best_names_highest_power_witness:
  "(\<forall>a b. power_gt (ex_env ex_confirmed ex_pending_12 (ex_txs 1 5 9 0)) a b \<longleftrightarrow> b < a) \<and>
   tip_power (ex_env ex_confirmed ex_pending_12 (ex_txs 1 5 9 0)) 7 (ex_two_forks 1 5 9) (Suc 0) = Some 9 \<and>
   default_power (ex_env ex_confirmed ex_pending_12 (ex_txs 1 5 9 0)) < 9 \<and>
   select_best (ex_env ex_confirmed ex_pending_12 (ex_txs 1 5 9 0)) 7 (ex_two_forks 1 5 9) = 1 \<and>
   select_best (ex_env ex_confirmed ex_pending_12 (ex_txs 1 5 9 0)) 7 (ex_two_forks 1 0 0) = 0 \<and>
   seed_step (ex_env ex_confirmed ex_pending_12 (ex_txs 1 5 9 0)) 7 False
     = Inr (False, single_fork (ex_ref 10) (ex_R 1), []) \<and>
   (\<exists>nd' txs'. GetNotarizationData (ex_env ex_confirmed ex_pending_12 (ex_txs 1 5 9 0)) 7 False = Inr (nd', txs') \<and>
      bestChain nd' = select_best (ex_env ex_confirmed ex_pending_12 (ex_txs 1 5 9 0)) 7 nd')"
proof -
  let ?env = "ex_env ex_confirmed ex_pending_12 (ex_txs 1 5 9 0) :: nat externals"
  have h: "\<And>a b. power_gt ?env a b \<longleftrightarrow> b < a"
    by (simp add: ex_env_simps)
  have t0: "tip_power ?env 7 (ex_two_forks 1 5 9) 0 = Some 5"
    and t1: "tip_power ?env 7 (ex_two_forks 1 5 9) (Suc 0) = Some 9"
    and z0: "tip_power ?env 7 (ex_two_forks 1 0 0) 0 = Some 0"
    and z1: "tip_power ?env 7 (ex_two_forks 1 0 0) (Suc 0) = Some 0"
    by (simp_all add: ex_two_forks_tip_power)
  have len: "length (forks (ex_two_forks r p1 p2)) = 2" for r p1 p2
    by (simp add: ex_two_forks_def)
  have d: "default_power ?env = 0" by (simp add: ex_env_simps)
  have s: "seed_step ?env 7 False = Inr (False, single_fork (ex_ref 10) (ex_R 1), [])"
    by (simp add: seed_step_def seed_confirmed_def ex_env_simps latest_confirmed_def ex_confirmed_def
        ex_entry_def ex_script_f_def ex_ref_def ex_txs_def ex_tx_def ex_script_n_def Let_def)
  have pend: "fst (GetAddressUnspent ?env (PendingNotarizationKey 7)) \<and>
        snd (GetAddressUnspent ?env (PendingNotarizationKey 7)) \<noteq> []"
    by (simp add: ex_env_simps ex_pending_12_def)
  note T = select_best_names_highest_power [where env = ?env and rank = "\<lambda>x. x" and cid = 7
      and wantTx = False and fin = False and ?nd0.0 = "single_fork (ex_ref 10) (ex_R 1)" and txs = "[]", OF h]
  have ex: "\<exists>i<length (forks (ex_two_forks 1 5 9)). \<exists>p. tip_power ?env 7 (ex_two_forks 1 5 9) i = Some p \<and>
        default_power ?env < p"
    using t1 d len by (intro exI [of _ "Suc 0"]) simp
  have b1: "select_best ?env 7 (ex_two_forks 1 5 9) = 1"
  proof -
    from T [of "ex_two_forks 1 5 9"] ex
    obtain p where lt: "select_best ?env 7 (ex_two_forks 1 5 9) < 2"
      and p: "tip_power ?env 7 (ex_two_forks 1 5 9) (select_best ?env 7 (ex_two_forks 1 5 9)) = Some p"
      and m: "\<forall>j<2. \<forall>q. tip_power ?env 7 (ex_two_forks 1 5 9) j = Some q \<longrightarrow> q \<le> p"
      unfolding len by blast
    have "9 \<le> p" using m [rule_format, of "Suc 0" 9] t1 by simp
    have "select_best ?env 7 (ex_two_forks 1 5 9) \<noteq> 0"
    proof
      assume "select_best ?env 7 (ex_two_forks 1 5 9) = 0"
      with p t0 have "p = 5" by simp
      with \<open>9 \<le> p\<close> show False by simp
    qed
    with lt show ?thesis by simp
  qed
  have b0: "select_best ?env 7 (ex_two_forks 1 0 0) = 0"
    using T [of "ex_two_forks 1 0 0"] z0 z1 d by (auto simp: len less_Suc_eq numeral_2_eq_2)
  have "\<exists>nd' txs'. GetNotarizationData ?env 7 False = Inr (nd', txs') \<and> bestChain nd' = select_best ?env 7 nd'"
    using T [of "ex_two_forks 1 5 9"] s pend by auto
  with h t1 d b1 b0 s show ?thesis by simp
qed

text \<open>
  The confirmed root and a pending record on it, neither with a proof root for the queried
  currency: the query succeeds, with one fork and best-chain 0, a fork whose tip has no
  proof root.
\<close>

theorem select_best_no_proof_root_counterexample:
  "(case GetNotarizationData (ex_env ex_confirmed [ex_entry 11 (ex_script_f (ex_ref 0)) 60] ex_txs_noroot) 7 False of
      Inl e \<Rightarrow> False
    | Inr (nd, t) \<Rightarrow>
        forks nd = [[0, 1]] \<and> bestChain nd = 0 \<and>
        proofRoots (snd (vtx nd ! last (forks nd ! 0))) 7 = None)"
  by code_simp

theorem select_best_equal_power_lowest_index_witness:
  "length (forks (ex_two_forks 1 5 5)) = 2 \<and>
   tip_power (ex_env [] [] []) 7 (ex_two_forks 1 5 5) (Suc 0) = Some 5 \<and>
   \<not> power_gt (ex_env [] [] []) 5 5 \<and>
   tip_power (ex_env [] [] []) 7 (ex_two_forks 1 5 5) 0 = Some 5 \<and>
   power_gt (ex_env [] [] []) 5 (default_power (ex_env [] [] [])) \<and>
   select_best (ex_env [] [] []) 7 (ex_two_forks 1 5 5) = 0"
proof -
  let ?env = "ex_env [] [] [] :: nat externals"
  have t: "tip_power ?env 7 (ex_two_forks 1 5 5) 0 = Some 5"
    "tip_power ?env 7 (ex_two_forks 1 5 5) (Suc 0) = Some 5"
    by (simp_all add: ex_two_forks_tip_power)
  have len: "length (forks (ex_two_forks 1 5 5)) = 2"
    by (simp add: ex_two_forks_def)
  have h: "\<forall>i<length (forks (ex_two_forks 1 5 5)). \<forall>j<length (forks (ex_two_forks 1 5 5)). \<forall>p q.
      tip_power ?env 7 (ex_two_forks 1 5 5) i = Some p \<longrightarrow>
      tip_power ?env 7 (ex_two_forks 1 5 5) j = Some q \<longrightarrow> \<not> power_gt ?env q p"
    using t by (auto simp: len less_Suc_eq numeral_2_eq_2 ex_env_simps)
  have g: "power_gt ?env 5 (default_power ?env)"
    by (simp add: ex_env_simps)
  have "select_best ?env 7 (ex_two_forks 1 5 5) \<le> 0"
    using select_best_equal_power_lowest_index [OF h, THEN conjunct1, rule_format, of 0 5] t(1) g len
    by simp
  with t g len show ?thesis by (simp add: ex_env_simps)
qed

text \<open>
  The same two pending records of equal power, discovered in either order: both runs choose
  index 0, and so different tips, \<open>P1\<close> (transaction 11) in one run and \<open>P2\<close> (transaction 12)
  in the other, over the same set of fork paths.
\<close>

theorem select_best_permutation_counterexample:
  "(case (GetNotarizationData (ex_env ex_confirmed ex_pending_12 (ex_txs 1 5 5 0)) 7 False,
          GetNotarizationData (ex_env ex_confirmed ex_pending_21 (ex_txs 1 5 5 0)) 7 False) of
      (Inr (ndA, tA), Inr (ndB, tB)) \<Rightarrow>
        bestChain ndA = 0 \<and> bestChain ndB = 0 \<and>
        fst (vtx ndA ! last (forks ndA ! bestChain ndA)) = ex_ref 11 \<and>
        fst (vtx ndB ! last (forks ndB ! bestChain ndB)) = ex_ref 12 \<and>
        map (\<lambda>v. map_option compactPower (proofRoots (snd v) 7)) (vtx ndA) = [Some 1, Some 5, Some 5] \<and>
        set (map (map (\<lambda>i. fst (vtx ndA ! i))) (forks ndA)) = set (map (map (\<lambda>i. fst (vtx ndB ! i))) (forks ndB))
    | _ \<Rightarrow> False)"
  by code_simp


section \<open>Transfer scans and unreadable entries\<close>

text \<open>
  Claim C4 asks both scans to log and skip an entry whose transaction cannot be read and
  still return the rest. \<^verbatim>\<open>GetUnspentChainTransfers\<close> does so. \<^verbatim>\<open>GetChainTransfers\<close> returns
  false at line 2302 on the first such entry: on the ledger whose first indexed output
  belongs to the unreadable transaction 20 and whose second is a valid transfer, the
  height-ranged scan fails and returns nothing, while the unspent scan succeeds with the
  valid transfer.
\<close>

theorem GetChainTransfers_aborts_on_unreadable_transaction:
  "myGetTransaction ex_transfer_env 20 = None \<and>
   GetCoins ex_transfer_env 20 = None \<and>
   GetChainTransfers ex_transfer_env [] 0 0 100 0 = Inr (False, []) \<and>
   GetUnspentChainTransfers ex_transfer_env [] 0 =
     Inr (True, [(7, 60, \<lparr>id_scriptPubKey = scriptPubKey ex_transfer_out, id_nValue = 5,
                         id_txIn = \<lparr>utxo_hash = 21, utxo_n = 0\<rparr>\<rparr>, ex_transfer)])"
  by (simp add: GetChainTransfers_def GetUnspentChainTransfers_def ex_transfer_env_def ex_env_def
      unspent_transfer_of_def transfer_destination_def ex_transfer_out_def ex_transfer_def)


section \<open>Fork growth over a tree of pending notarizations\<close>

text \<open>
  The pending entries as the loop receives them: each is keyed by the parent reference of
  its record. Its output reference is the identity of the record. The entries form a tree
  rooted at the seed when the seed and the outputs are pairwise distinct, every key is the
  parent reference of its record, and every key is reached from the seed along parent
  references.
\<close>

definition pending_outputs :: "notarization_refs \<Rightarrow> CUTXORef list" where
  "pending_outputs refs = map (\<lambda>e. fst (snd e)) refs"

fun reachable_in :: "nat \<Rightarrow> notarization_refs \<Rightarrow> CUTXORef list \<Rightarrow> CUTXORef list" where
  "reachable_in 0 refs seen = seen"
| "reachable_in (Suc k) refs seen =
     reachable_in k refs (seen @ pending_outputs (filter (\<lambda>e. fst e \<in> set seen) refs))"

definition pending_tree :: "CUTXORef \<Rightarrow> notarization_refs \<Rightarrow> bool" where
  "pending_tree seedRef refs \<longleftrightarrow>
     distinct (seedRef # pending_outputs refs) \<and>
     (\<forall>e \<in> set refs. fst e = prevNotarization (snd (snd e)) \<and>
                      fst e \<in> set (reachable_in (length refs) refs [seedRef]))"

text \<open>The leaves of the tree: the seed or pending outputs that no entry has as its parent.\<close>

definition tree_leaves :: "CUTXORef \<Rightarrow> notarization_refs \<Rightarrow> CUTXORef list" where
  "tree_leaves seedRef refs = filter (\<lambda>x. x \<notin> fst ` set refs) (seedRef # pending_outputs refs)"

text \<open>The output reference at the tip of a fork path.\<close>

definition tip_ref :: "CChainNotarizationData \<Rightarrow> nat list \<Rightarrow> CUTXORef" where
  "tip_ref nd f = fst (vtx nd ! last f)"

text \<open>
  The invariant of the loop, on the references in \<^verbatim>\<open>vtx\<close> (\<open>V\<close>), the tips of the forks
  (\<open>T\<close>), the records added so far (\<open>C\<close>) and the entries left (\<open>R\<close>): references stay
  distinct, every entry is either added or left, tips are distinct, a reference that is no
  longer a tip has no entry left and has a child among the added records, and the parent of
  an added record is a reference of \<^verbatim>\<open>vtx\<close> that is no longer a tip.
\<close>

definition growth_inv ::
  "CUTXORef \<Rightarrow> notarization_refs \<Rightarrow> CUTXORef list \<Rightarrow> CUTXORef list \<Rightarrow>
   (CUTXORef \<times> CPBaaSNotarization) list \<Rightarrow> notarization_refs \<Rightarrow> bool" where
  "growth_inv seedRef refs V T C R \<longleftrightarrow>
     V = seedRef # map fst C \<and>
     distinct (V @ pending_outputs R) \<and>
     set R \<subseteq> set refs \<and> snd ` set refs = set C \<union> snd ` set R \<and>
     distinct T \<and> set T \<subseteq> set V \<and>
     (\<forall>x \<in> set V. x \<in> set T \<or> x \<notin> fst ` set R) \<and>
     (\<forall>v \<in> set C. prevNotarization (snd v) \<in> set V \<and> prevNotarization (snd v) \<notin> set T) \<and>
     (\<forall>x \<in> set V. x \<in> set T \<or> x \<in> (\<lambda>v. prevNotarization (snd v)) ` set C)"


lemma refs_of_set: "set (refs_of t R) = snd ` {e \<in> set R. fst e = t}"
  by (auto simp: refs_of_def)

lemma refs_erase_set: "set (refs_erase t R) = {e \<in> set R. fst e \<noteq> t}"
  by (auto simp: refs_erase_def)

lemma refs_of_outputs: "map fst (refs_of t R) = pending_outputs (filter (\<lambda>e. fst e = t) R)"
  by (simp add: refs_of_def pending_outputs_def)

lemma outputs_partition_set:
  "set (pending_outputs R) = set (map fst (refs_of t R)) \<union> set (pending_outputs (refs_erase t R))"
  by (auto simp: refs_of_def refs_erase_def pending_outputs_def)

lemma distinct_outputs_partition:
  "distinct (pending_outputs R) \<Longrightarrow>
   distinct (map fst (refs_of t R) @ pending_outputs (refs_erase t R))"
proof (induction R)
  case Nil
  then show ?case by (simp add: refs_of_def refs_erase_def pending_outputs_def)
next
  case (Cons e R)
  have notin: "fst (snd e) \<notin> set (pending_outputs R)" and d: "distinct (pending_outputs R)"
    using Cons.prems by (simp_all add: pending_outputs_def)
  have sub: "set (map fst (refs_of t R)) \<union> set (pending_outputs (refs_erase t R)) = set (pending_outputs R)"
    using outputs_partition_set [of R t] by simp
  have IH: "distinct (map fst (refs_of t R) @ pending_outputs (refs_erase t R))"
    using Cons.IH d by simp
  show ?case
  proof (cases "fst e = t")
    case True
    then have "map fst (refs_of t (e # R)) = fst (snd e) # map fst (refs_of t R)"
      "refs_erase t (e # R) = refs_erase t R"
      by (simp_all add: refs_of_def refs_erase_def)
    then show ?thesis using IH notin sub by auto
  next
    case False
    then have "map fst (refs_of t (e # R)) = map fst (refs_of t R)"
      "pending_outputs (refs_erase t (e # R)) = fst (snd e) # pending_outputs (refs_erase t R)"
      by (simp_all add: refs_of_def refs_erase_def pending_outputs_def)
    then show ?thesis using IH notin sub by auto
  qed
qed

lemma growth_inv_step:
  assumes inv: "growth_inv seedRef refs V T C R"
    and keys: "\<forall>e \<in> set refs. fst e = prevNotarization (snd (snd e))"
    and k: "k < length T"
    and M: "refs_of (T ! k) R = m # ms"
  shows "growth_inv seedRef refs (V @ map fst (m # ms)) (T[k := fst m] @ map fst ms) (C @ m # ms)
           (refs_erase (T ! k) R)"
proof -
  let ?t = "T ! k"
  let ?M = "m # ms"
  let ?N = "map fst ?M"
  let ?R' = "refs_erase ?t R"
  let ?T' = "T[k := fst m] @ map fst ms"
  let ?par = "\<lambda>v :: CUTXORef \<times> CPBaaSNotarization. prevNotarization (snd v)"
  from inv [unfolded growth_inv_def] have V: "V = seedRef # map fst C"
    and dV: "distinct (V @ pending_outputs R)"
    and sub: "set R \<subseteq> set refs" and cover: "snd ` set refs = set C \<union> snd ` set R"
    and dT: "distinct T" and TV: "set T \<subseteq> set V"
    and D: "\<forall>x \<in> set V. x \<in> set T \<or> x \<notin> fst ` set R"
    and E: "\<forall>v \<in> set C. ?par v \<in> set V \<and> ?par v \<notin> set T"
    and G: "\<forall>x \<in> set V. x \<in> set T \<or> x \<in> ?par ` set C"
    by blast+
  have tT: "?t \<in> set T" using k by simp
  then have tV: "?t \<in> set V" using TV by auto
  have setM: "set ?M = snd ` {e \<in> set R. fst e = ?t}"
    using refs_of_set [of ?t R] M by simp
  have parM: "\<forall>v \<in> set ?M. ?par v = ?t"
  proof
    fix v assume "v \<in> set ?M"
    then obtain e where e: "e \<in> set R" "fst e = ?t" "v = snd e"
      unfolding setM by auto
    then have "fst e = prevNotarization (snd (snd e))" using keys sub by auto
    with e show "?par v = ?t" by simp
  qed
  have N: "?N = map fst (refs_of ?t R)" using M by simp
  have dN: "distinct (?N @ pending_outputs ?R')"
    unfolding N using dV by (intro distinct_outputs_partition) simp
  have NR: "set ?N \<union> set (pending_outputs ?R') = set (pending_outputs R)"
    unfolding N using outputs_partition_set [of R ?t] by simp
  have NV: "set ?N \<inter> set V = {}" and RV: "set (pending_outputs ?R') \<inter> set V = {}"
    using dV NR by auto
  have setT': "set ?T' = (set T - {?t}) \<union> set ?N"
    using set_update_distinct [OF dT k, of "fst m"] by auto
  have keysR': "fst ` set ?R' = fst ` set R - {?t}"
    by (auto simp: refs_erase_set)
  have c1: "V @ ?N = seedRef # map fst (C @ ?M)" using V by simp
  have c2: "distinct ((V @ ?N) @ pending_outputs ?R')"
    using dV dN NV RV by auto
  have c3: "set ?R' \<subseteq> set refs" using sub by (auto simp: refs_erase_set)
  have "snd ` set R = set ?M \<union> snd ` set ?R'"
    unfolding setM by (auto simp: refs_erase_set)
  then have c4: "snd ` set refs = set (C @ ?M) \<union> snd ` set ?R'"
    using cover by auto
  have fm: "fst m \<notin> set T" "fst m \<notin> set (map fst ms)"
    using NV TV dN by auto
  have "distinct (T[k := fst m])"
    using dT fm(1) by (intro distinct_list_update) auto
  moreover have "distinct (map fst ms)" using dN by simp
  moreover have "set (T[k := fst m]) \<inter> set (map fst ms) = {}"
  proof -
    have "set (T[k := fst m]) \<subseteq> insert (fst m) (set T)"
      by (rule set_update_subset_insert)
    moreover have "set (map fst ms) \<inter> set T = {}" using NV TV by auto
    ultimately show ?thesis using fm(2) by blast
  qed
  ultimately have c5: "distinct ?T'" by simp
  have c6: "set ?T' \<subseteq> set (V @ ?N)" unfolding setT' using TV by auto
  have tnot: "?t \<notin> set ?T'" unfolding setT' using tV NV by auto
  have c7: "\<forall>x \<in> set (V @ ?N). x \<in> set ?T' \<or> x \<notin> fst ` set ?R'"
    unfolding setT' keysR' using D by auto
  have c8: "\<forall>v \<in> set (C @ ?M). ?par v \<in> set (V @ ?N) \<and> ?par v \<notin> set ?T'"
  proof
    fix v assume "v \<in> set (C @ ?M)"
    then consider "v \<in> set C" | "v \<in> set ?M" by auto
    then show "?par v \<in> set (V @ ?N) \<and> ?par v \<notin> set ?T'"
    proof cases
      case 1
      then have "?par v \<in> set V" "?par v \<notin> set T" using E by auto
      then show ?thesis unfolding setT' using NV by auto
    next
      case 2
      then have "?par v = ?t" using parM by auto
      then show ?thesis using tV tnot by simp
    qed
  qed
  have c9: "\<forall>x \<in> set (V @ ?N). x \<in> set ?T' \<or> x \<in> ?par ` set (C @ ?M)"
  proof
    fix x assume "x \<in> set (V @ ?N)"
    then consider "x \<in> set ?N" | "x \<in> set V" "x = ?t" | "x \<in> set V" "x \<noteq> ?t" by auto
    then show "x \<in> set ?T' \<or> x \<in> ?par ` set (C @ ?M)"
    proof cases
      case 1
      then show ?thesis unfolding setT' by auto
    next
      case 2
      have "?par m = ?t" using parM by simp
      then have "?t \<in> ?par ` set (C @ ?M)" by (metis image_eqI in_set_conv_decomp list.set_intros(1) set_append UnI2)
      then show ?thesis using 2 by simp
    next
      case 3
      then have "x \<in> set T \<or> x \<in> ?par ` set C" using G by auto
      then show ?thesis unfolding setT' using 3 by auto
    qed
  qed
  show ?thesis
    unfolding growth_inv_def using c1 c2 c3 c4 c5 c6 c7 c8 c9 by blast
qed

lemma map_nth_appended:
  "map (\<lambda>j. h ((xs @ m # ms) ! j)) [Suc (length xs)..<Suc (length xs) + length ms] = map h ms"
proof (rule nth_equalityI)
  show "length (map (\<lambda>j. h ((xs @ m # ms) ! j)) [Suc (length xs)..<Suc (length xs) + length ms]) = length (map h ms)"
    by (simp del: upt_Suc)
next
  fix i
  assume "i < length (map (\<lambda>j. h ((xs @ m # ms) ! j)) [Suc (length xs)..<Suc (length xs) + length ms])"
  then have i: "i < length ms" by (simp del: upt_Suc)
  then have "[Suc (length xs)..<Suc (length xs) + length ms] ! i = Suc (length xs) + i"
    by (intro nth_upt) simp
  moreover have "(xs @ m # ms) ! (Suc (length xs) + i) = ms ! i"
    by (simp add: nth_append)
  ultimately show "map (\<lambda>j. h ((xs @ m # ms) ! j)) [Suc (length xs)..<Suc (length xs) + length ms] ! i = map h ms ! i"
    using i by (simp del: upt_Suc)
qed

text \<open>The tips after the step of fork \<open>k\<close> with matches \<open>m # ms\<close>.\<close>

lemma extend_fork_tips:
  assumes inv: "forks_rooted nd" and k: "k < length (forks nd)"
    and M: "refs_of (fst (vtx nd ! last (forks nd ! k))) R = m # ms"
    and e: "extend_fork k (nd, R, a) = (nd', R', a')"
  shows "map (tip_ref nd') (forks nd') = (map (tip_ref nd) (forks nd))[k := fst m] @ map fst ms"
    and "vtx nd' = vtx nd @ m # ms"
    and "R' = refs_erase (fst (vtx nd ! last (forks nd ! k))) R"
proof -
  let ?f = "forks nd ! k"
  let ?L = "length (vtx nd)"
  have nd': "vtx nd' = vtx nd @ m # ms"
    "forks nd' = (forks nd)[k := ?f @ [?L]] @ map (\<lambda>j. ?f @ [j]) [Suc ?L..<Suc ?L + length ms]"
    "R' = refs_erase (fst (vtx nd ! last ?f)) R"
    using e extend_fork_some [OF k M, of a] by auto
  show "vtx nd' = vtx nd @ m # ms" "R' = refs_erase (fst (vtx nd ! last ?f)) R"
    using nd' by simp_all
  have old: "tip_ref nd' g = tip_ref nd g" if "g \<in> set (forks nd)" for g
  proof -
    have "g \<noteq> []" "\<forall>i \<in> set g. i < ?L" using inv that by (auto simp: forks_rooted_def)
    then have "last g < ?L" using last_in_set by blast
    then show ?thesis by (simp add: tip_ref_def nd'(1) nth_append)
  qed
  have new: "tip_ref nd' (?f @ [j]) = fst ((vtx nd @ m # ms) ! j)" for j
    by (simp add: tip_ref_def nd'(1))
  have "map (tip_ref nd') ((forks nd)[k := ?f @ [?L]]) = (map (tip_ref nd') (forks nd))[k := tip_ref nd' (?f @ [?L])]"
    by (simp add: map_update)
  also have "map (tip_ref nd') (forks nd) = map (tip_ref nd) (forks nd)"
    using old by (intro map_cong) simp_all
  also have "tip_ref nd' (?f @ [?L]) = fst m"
    by (simp add: new)
  finally have a: "map (tip_ref nd') ((forks nd)[k := ?f @ [?L]]) = (map (tip_ref nd) (forks nd))[k := fst m]" .
  have "map (tip_ref nd') (map (\<lambda>j. ?f @ [j]) [Suc ?L..<Suc ?L + length ms])
      = map (\<lambda>j. fst ((vtx nd @ m # ms) ! j)) [Suc ?L..<Suc ?L + length ms]"
    by (simp add: new del: upt_Suc)
  also have "\<dots> = map fst ms" by (rule map_nth_appended)
  finally show "map (tip_ref nd') (forks nd') = (map (tip_ref nd) (forks nd))[k := fst m] @ map fst ms"
    using a by (simp add: nd'(2) del: upt_Suc)
qed

text \<open>The invariant on the data of the query.\<close>

definition tree_state ::
  "CUTXORef \<Rightarrow> notarization_refs \<Rightarrow> CChainNotarizationData \<Rightarrow> notarization_refs \<Rightarrow> bool" where
  "tree_state seedRef refs nd R \<longleftrightarrow>
     forks_rooted nd \<and>
     growth_inv seedRef refs (map fst (vtx nd)) (map (tip_ref nd) (forks nd)) (tl (vtx nd)) R"

lemma extend_fork_tree_state:
  assumes keys: "\<forall>e \<in> set refs. fst e = prevNotarization (snd (snd e))"
    and ts: "tree_state seedRef refs nd R" and k: "k < length (forks nd)"
    and e: "extend_fork k (nd, R, a) = (nd', R', a')"
  shows "tree_state seedRef refs nd' R'"
proof (cases "refs_of (fst (vtx nd ! last (forks nd ! k))) R")
  case Nil
  then have "nd' = nd" "R' = R"
    using e by (simp_all add: extend_fork_none refs_erase_none)
  with ts show ?thesis by simp
next
  case (Cons m ms)
  have rooted: "forks_rooted nd" and g: "growth_inv seedRef refs (map fst (vtx nd)) (map (tip_ref nd) (forks nd)) (tl (vtx nd)) R"
    using ts by (simp_all add: tree_state_def)
  have ne: "vtx nd \<noteq> []" using rooted by (simp add: forks_rooted_def)
  have tk: "map (tip_ref nd) (forks nd) ! k = fst (vtx nd ! last (forks nd ! k))"
    using k by (simp add: tip_ref_def)
  note s = extend_fork_tips [OF rooted k Cons e]
  have k': "k < length (map (tip_ref nd) (forks nd))" using k by simp
  have M': "refs_of (map (tip_ref nd) (forks nd) ! k) R = m # ms"
    using Cons tk by simp
  have "growth_inv seedRef refs (map fst (vtx nd) @ map fst (m # ms))
          ((map (tip_ref nd) (forks nd))[k := fst m] @ map fst ms) (tl (vtx nd) @ m # ms)
          (refs_erase (map (tip_ref nd) (forks nd) ! k) R)"
    using growth_inv_step [OF g keys k' M'] .
  then have "growth_inv seedRef refs (map fst (vtx nd')) (map (tip_ref nd') (forks nd')) (tl (vtx nd')) R'"
    using s ne tk by simp
  moreover have "forks_rooted nd'" using extend_fork_rooted [OF rooted k e] .
  ultimately show ?thesis by (simp add: tree_state_def)
qed

text \<open>
  How the loop ends: with no entry left, or after a pass in which no fork tip had an entry.
\<close>

lemma extend_fork_flag:
  "extend_fork k (nd, R, True) = (nd', R', a') \<Longrightarrow> a'"
  by (auto simp: extend_fork_def Let_def split: prod.splits dest: add_matches_added_mono)

lemma foldl_extend_fork_flag:
  "foldl (\<lambda>s forkNum. extend_fork forkNum s) (nd, R, True) ks = (nd', R', a') \<Longrightarrow> a'"
proof (induction ks arbitrary: nd R)
  case Nil
  then show ?case by simp
next
  case (Cons k ks)
  obtain nd1 R1 a1 where e: "extend_fork k (nd, R, True) = (nd1, R1, a1)"
    by (cases "extend_fork k (nd, R, True)") auto
  then have "a1" by (rule extend_fork_flag)
  with Cons e show ?case by simp
qed

lemma foldl_extend_fork_idle:
  "foldl (\<lambda>s forkNum. extend_fork forkNum s) (nd, R, False) ks = (nd', R', False) \<Longrightarrow>
   nd' = nd \<and> R' = R \<and> (\<forall>k \<in> set ks. refs_of (fst (vtx nd ! last (forks nd ! k))) R = [])"
proof (induction ks)
  case Nil
  then show ?case by simp
next
  case (Cons k ks)
  let ?t = "fst (vtx nd ! last (forks nd ! k))"
  show ?case
  proof (cases "refs_of ?t R = []")
    case True
    then have "extend_fork k (nd, R, False) = (nd, R, False)"
      by (simp add: extend_fork_none refs_erase_none)
    with Cons True show ?thesis by simp
  next
    case False
    obtain nd1 R1 a1 where e: "extend_fork k (nd, R, False) = (nd1, R1, a1)"
      by (cases "extend_fork k (nd, R, False)") auto
    then have "add_matches k False (refs_of ?t R) (nd, False) = (nd1, a1)"
      by (auto simp: extend_fork_def Let_def split: prod.splits)
    then have "a1" using add_matches_first [OF False] by blast
    then have "foldl (\<lambda>s forkNum. extend_fork forkNum s) (nd1, R1, True) ks = (nd', R', False)"
      using Cons.prems e by simp
    then have False using foldl_extend_fork_flag by blast
    then show ?thesis ..
  qed
qed

lemma fork_pass_idle:
  assumes "fork_pass (nd, R) = (nd', R', False)"
  shows "nd' = nd \<and> R' = R \<and> (\<forall>k<length (forks nd). refs_of (fst (vtx nd ! last (forks nd ! k))) R = [])"
  using foldl_extend_fork_idle [of nd R "[0..<length (forks nd)]" nd' R'] assms
  by (simp add: fork_pass_def)

lemma expand_forks_exit:
  "expand_forks nd R a = (nd', R') \<Longrightarrow> a \<Longrightarrow>
   R' = [] \<or> (\<forall>k<length (forks nd'). refs_of (fst (vtx nd' ! last (forks nd' ! k))) R' = [])"
proof (induction nd R a rule: expand_forks.induct)
  case (1 nd refs somethingAdded)
  show ?case
  proof (cases "refs = []")
    case True
    with "1.prems" show ?thesis by (simp add: expand_forks.simps)
  next
    case False
    obtain nd1 R1 a1 where fp: "fork_pass (nd, refs) = (nd1, R1, a1)"
      by (cases "fork_pass (nd, refs)") auto
    have x: "expand_forks nd1 R1 a1 = (nd', R')"
      using "1.prems" False fp by (simp add: expand_forks.simps [of nd refs])
    show ?thesis
    proof (cases a1)
      case True
      then show ?thesis using "1.IH" "1.prems"(2) False fp x by auto
    next
      case a1: False
      then have "nd' = nd1" "R' = R1" using x by (simp_all add: expand_forks.simps)
      moreover have "nd1 = nd \<and> R1 = refs \<and>
          (\<forall>k<length (forks nd). refs_of (fst (vtx nd ! last (forks nd ! k))) refs = [])"
        using fork_pass_idle [of nd refs nd1 R1] fp a1 by simp
      ultimately show ?thesis by simp
    qed
  qed
qed

lemma reachable_in_closed:
  assumes closed: "\<forall>e \<in> set refs. fst e \<in> S \<longrightarrow> fst (snd e) \<in> S"
  shows "set seen \<subseteq> S \<Longrightarrow> set (reachable_in n refs seen) \<subseteq> S"
proof (induction n arbitrary: seen)
  case 0
  then show ?case by simp
next
  case (Suc n)
  have "set (seen @ pending_outputs (filter (\<lambda>e. fst e \<in> set seen) refs)) \<subseteq> S"
    using Suc.prems closed by (auto simp: pending_outputs_def)
  then show ?case using Suc.IH by simp
qed

text \<open>On a tree the loop cannot stop while entries are left.\<close>

lemma tree_state_consumes_all:
  assumes tree: "pending_tree seedRef refs"
    and ts: "tree_state seedRef refs nd R"
    and idle: "\<forall>k<length (forks nd). refs_of (fst (vtx nd ! last (forks nd ! k))) R = []"
  shows "R = []"
proof (rule ccontr)
  assume ne: "R \<noteq> []"
  let ?V = "map fst (vtx nd)" and ?T = "map (tip_ref nd) (forks nd)" and ?C = "tl (vtx nd)"
  from ts have g: "growth_inv seedRef refs ?V ?T ?C R" by (simp add: tree_state_def)
  from g [unfolded growth_inv_def] have V: "?V = seedRef # map fst ?C"
    and sub: "set R \<subseteq> set refs" and cover: "snd ` set refs = set ?C \<union> snd ` set R"
    and D: "\<forall>x \<in> set ?V. x \<in> set ?T \<or> x \<notin> fst ` set R"
    by blast+
  have keys: "\<forall>e \<in> set refs. fst e = prevNotarization (snd (snd e))"
    and reach: "\<forall>e \<in> set refs. fst e \<in> set (reachable_in (length refs) refs [seedRef])"
    using tree by (auto simp: pending_tree_def)
  have tips: "t \<notin> fst ` set R" if "t \<in> set ?T" for t
  proof -
    from that obtain k where "k < length (forks nd)" "t = fst (vtx nd ! last (forks nd ! k))"
      by (auto simp: in_set_conv_nth tip_ref_def)
    then have "refs_of t R = []" using idle by simp
    then show ?thesis by (auto simp: refs_of_def filter_empty_conv)
  qed
  have none: "x \<notin> fst ` set R" if "x \<in> set ?V" for x
    using D tips that by blast
  have closed: "\<forall>e \<in> set refs. fst e \<in> set ?V \<longrightarrow> fst (snd e) \<in> set ?V"
  proof (intro ballI impI)
    fix e assume e: "e \<in> set refs" and p: "fst e \<in> set ?V"
    have "snd e \<in> set ?C \<union> snd ` set R" using e cover by blast
    then show "fst (snd e) \<in> set ?V"
    proof
      assume "snd e \<in> set ?C"
      then have "fst (snd e) \<in> set (map fst ?C)" by simp
      then show ?thesis by (subst V) simp
    next
      assume "snd e \<in> snd ` set R"
      then obtain e' where e': "e' \<in> set R" "snd e' = snd e" by auto
      then have "fst e' = fst e" using keys sub e by auto
      then have "fst e \<in> fst ` set R" using e'(1) by (metis imageI)
      with none [OF p] show ?thesis by simp
    qed
  qed
  have "seedRef \<in> set ?V" by (subst V) simp
  then have r: "set (reachable_in (length refs) refs [seedRef]) \<subseteq> set ?V"
    using reachable_in_closed [OF closed, of "[seedRef]" "length refs"] by simp
  from ne obtain e where e: "e \<in> set R" by (cases R) auto
  then have "fst e \<in> set ?V" using sub reach r by blast
  with none e show False by (metis imageI)
qed

text \<open>Every fork path follows the parent references of its records.\<close>

definition parent_chains :: "CChainNotarizationData \<Rightarrow> bool" where
  "parent_chains nd \<longleftrightarrow>
     (\<forall>f \<in> set (forks nd). \<forall>i. Suc i < length f \<longrightarrow>
        prevNotarization (snd (vtx nd ! (f ! Suc i))) = fst (vtx nd ! (f ! i)))"

lemma extend_fork_parent_chains:
  assumes keys: "\<forall>e \<in> set refs. fst e = prevNotarization (snd (snd e))"
    and ts: "tree_state seedRef refs nd R" and pc: "parent_chains nd"
    and k: "k < length (forks nd)"
    and e: "extend_fork k (nd, R, a) = (nd', R', a')"
  shows "parent_chains nd'"
proof (cases "refs_of (fst (vtx nd ! last (forks nd ! k))) R")
  case Nil
  then have "nd' = nd" using e by (simp add: extend_fork_none)
  with pc show ?thesis by simp
next
  case (Cons m ms)
  let ?f = "forks nd ! k"
  let ?L = "length (vtx nd)"
  let ?t = "fst (vtx nd ! last ?f)"
  let ?vtx' = "vtx nd @ m # ms"
  have rooted: "forks_rooted nd" and g: "growth_inv seedRef refs (map fst (vtx nd)) (map (tip_ref nd) (forks nd)) (tl (vtx nd)) R"
    using ts by (simp_all add: tree_state_def)
  have sub: "set R \<subseteq> set refs" using g [unfolded growth_inv_def] by blast
  have nd': "vtx nd' = ?vtx'"
    "forks nd' = (forks nd)[k := ?f @ [?L]] @ map (\<lambda>j. ?f @ [j]) [Suc ?L..<Suc ?L + length ms]"
    using e extend_fork_some [OF k Cons, of a] by auto
  have bound: "g \<noteq> [] \<and> (\<forall>i \<in> set g. i < ?L)" if "g \<in> set (forks nd)" for g
    using rooted that by (auto simp: forks_rooted_def)
  have fin: "?f \<in> set (forks nd)" using k by simp
  have parM: "prevNotarization (snd v) = ?t" if "v \<in> set (m # ms)" for v
  proof -
    have "set (refs_of ?t R) = snd ` {e \<in> set R. fst e = ?t}"
      by (rule refs_of_set)
    moreover have "v \<in> set (refs_of ?t R)" using that Cons by simp
    ultimately have "v \<in> snd ` {e \<in> set R. fst e = ?t}" by blast
    then obtain x where x: "x \<in> set R" "fst x = ?t" "v = snd x"
      by auto
    then have "fst x = prevNotarization (snd (snd x))" using keys sub by auto
    with x show ?thesis by simp
  qed
  have old: "prevNotarization (snd (?vtx' ! (g ! Suc i))) = fst (?vtx' ! (g ! i))"
    if "g \<in> set (forks nd)" "Suc i < length g" for g i
  proof -
    have "g ! Suc i < ?L" "g ! i < ?L" using bound [OF that(1)] that(2) by auto
    then have "?vtx' ! (g ! Suc i) = vtx nd ! (g ! Suc i)" "?vtx' ! (g ! i) = vtx nd ! (g ! i)"
      by (simp_all add: nth_append)
    then show ?thesis using pc that by (simp add: parent_chains_def)
  qed
  have new: "prevNotarization (snd (?vtx' ! ((?f @ [j]) ! Suc i))) = fst (?vtx' ! ((?f @ [j]) ! i))"
    if j: "?L \<le> j" "j < Suc ?L + length ms" and i: "Suc i < length (?f @ [j])" for j i
  proof (cases "Suc i < length ?f")
    case True
    then show ?thesis using old [OF fin True] by (simp add: nth_append)
  next
    case False
    then have si: "Suc i = length ?f" using i by simp
    have fne: "?f \<noteq> []" and fb: "\<forall>x \<in> set ?f. x < ?L" using bound [OF fin] by auto
    have "(?f @ [j]) ! i = last ?f" using si [symmetric] fne by (simp add: nth_append last_conv_nth)
    moreover have "last ?f < ?L" using fne fb by simp
    ultimately have a: "fst (?vtx' ! ((?f @ [j]) ! i)) = ?t" by (simp add: nth_append)
    have "(?f @ [j]) ! Suc i = j" unfolding si by (rule nth_append_length)
    moreover have "?vtx' ! j = (m # ms) ! (j - ?L)" using j by (simp add: nth_append)
    moreover have "(m # ms) ! (j - ?L) \<in> set (m # ms)" using j by (intro nth_mem) auto
    ultimately have "prevNotarization (snd (?vtx' ! ((?f @ [j]) ! Suc i))) = ?t"
      using parM by simp
    with a show ?thesis by simp
  qed
  have "prevNotarization (snd (vtx nd' ! (g ! Suc i))) = fst (vtx nd' ! (g ! i))"
    if g: "g \<in> set (forks nd')" and i: "Suc i < length g" for g i
  proof -
    from g nd'(2) consider "g \<in> set ((forks nd)[k := ?f @ [?L]])"
      | j where "g = ?f @ [j]" "Suc ?L \<le> j" "j < Suc ?L + length ms"
      by auto
    then show ?thesis
    proof cases
      case 1
      then have "g = ?f @ [?L] \<or> g \<in> set (forks nd)"
        using set_update_subset_insert by fastforce
      then show ?thesis
      proof
        assume "g = ?f @ [?L]"
        then show ?thesis using new [of ?L i] i by (simp add: nd'(1))
      next
        assume "g \<in> set (forks nd)"
        then show ?thesis using old i by (simp add: nd'(1))
      qed
    next
      case 2
      then show ?thesis using new [of j i] i by (simp add: nd'(1))
    qed
  qed
  then show ?thesis by (simp add: parent_chains_def)
qed

lemma expand_forks_tree_final:
  assumes tree: "pending_tree seedRef refs"
    and x: "expand_forks (single_fork seedRef seedNotarization) refs True = (nd, left)"
  shows "left = []" and "tree_state seedRef refs nd []" and "parent_chains nd"
proof -
  let ?nd0 = "single_fork seedRef seedNotarization"
  have keys: "\<forall>e \<in> set refs. fst e = prevNotarization (snd (snd e))"
    and d0: "distinct (seedRef # pending_outputs refs)"
    using tree by (auto simp: pending_tree_def)
  have "growth_inv seedRef refs [seedRef] [seedRef] [] refs"
    unfolding growth_inv_def using d0 by simp
  then have ts0: "tree_state seedRef refs ?nd0 refs"
    using forks_rooted_single_fork [of seedRef seedNotarization]
    by (simp add: tree_state_def single_fork_def tip_ref_def)
  have pc0: "parent_chains ?nd0"
    by (simp add: parent_chains_def single_fork_def)
  have fin: "tree_state seedRef refs nd left \<and> parent_chains nd"
  proof (rule expand_forks_invariant [where P = "\<lambda>d R. tree_state seedRef refs d R \<and> parent_chains d"])
    show "tree_state seedRef refs ?nd0 refs \<and> parent_chains ?nd0" using ts0 pc0 by simp
    show "expand_forks ?nd0 refs True = (nd, left)" by fact
  next
    fix d R a k d' R' a'
    assume a: "tree_state seedRef refs d R \<and> parent_chains d" and k: "k < length (forks d)"
      and e: "extend_fork k (d, R, a) = (d', R', a')"
    have "tree_state seedRef refs d' R'"
      using extend_fork_tree_state [OF keys _ k e] a by blast
    moreover have "parent_chains d'"
      using extend_fork_parent_chains [OF keys _ _ k e] a by blast
    ultimately show "tree_state seedRef refs d' R' \<and> parent_chains d'" by simp
  qed
  have "left = [] \<or> (\<forall>k<length (forks nd). refs_of (fst (vtx nd ! last (forks nd ! k))) left = [])"
    using expand_forks_exit [OF x] by simp
  then show left: "left = []"
    using tree_state_consumes_all [OF tree, of nd left] fin by blast
  with fin show "tree_state seedRef refs nd []" "parent_chains nd" by simp_all
qed

lemma growth_invD:
  assumes "growth_inv seedRef refs V T C R"
  shows "V = seedRef # map fst C"
    and "distinct (V @ pending_outputs R)"
    and "set R \<subseteq> set refs"
    and "snd ` set refs = set C \<union> snd ` set R"
    and "distinct T"
    and "set T \<subseteq> set V"
    and "\<forall>x \<in> set V. x \<in> set T \<or> x \<notin> fst ` set R"
    and "\<forall>v \<in> set C. prevNotarization (snd v) \<in> set V \<and> prevNotarization (snd v) \<notin> set T"
    and "\<forall>x \<in> set V. x \<in> set T \<or> x \<in> (\<lambda>v. prevNotarization (snd v)) ` set C"
  using assms unfolding growth_inv_def by fast+

lemma tree_state_tips_are_leaves:
  assumes keys: "\<forall>e \<in> set refs. fst e = prevNotarization (snd (snd e))"
    and d0: "distinct (seedRef # pending_outputs refs)"
    and ts: "tree_state seedRef refs nd []"
  shows "set (map (tip_ref nd) (forks nd)) = set (tree_leaves seedRef refs)"
    and "distinct (map (tip_ref nd) (forks nd))"
    and "length (forks nd) = length (tree_leaves seedRef refs)"
    and "distinct (map fst (vtx nd))"
    and "set (tl (vtx nd)) = snd ` set refs"
proof -
  let ?V = "map fst (vtx nd)" and ?T = "map (tip_ref nd) (forks nd)" and ?C = "tl (vtx nd)"
  have g: "growth_inv seedRef refs ?V ?T ?C []"
    using ts by (simp add: tree_state_def)
  note V = growth_invD(1) [OF g] and dV0 = growth_invD(2) [OF g] and C0 = growth_invD(4) [OF g]
    and dT = growth_invD(5) [OF g] and TV = growth_invD(6) [OF g] and E0 = growth_invD(8) [OF g]
    and G = growth_invD(9) [OF g]
  show dV: "distinct ?V" using dV0 by (simp only: pending_outputs_def list.map append_Nil2)
  have C: "snd ` set refs = set ?C" using C0 by simp
  then show "set ?C = snd ` set refs" by simp
  have E: "\<forall>v \<in> set ?C. prevNotarization (snd v) \<notin> set ?T" using E0 by blast
  have "fst ` set ?C = fst ` snd ` set refs" using C by simp
  also have "\<dots> = set (pending_outputs refs)"
    by (simp add: pending_outputs_def image_image)
  finally have fC: "fst ` set ?C = set (pending_outputs refs)" .
  have "set ?V = insert seedRef (fst ` set ?C)"
    by (subst V) simp
  then have nodes: "set ?V = insert seedRef (set (pending_outputs refs))"
    using fC by simp
  have "(\<lambda>v. prevNotarization (snd v)) ` set ?C = (\<lambda>e. prevNotarization (snd (snd e))) ` set refs"
    unfolding C [symmetric] by (simp add: image_image)
  also have "\<dots> = fst ` set refs"
    using keys by (intro image_cong) simp_all
  finally have parents: "(\<lambda>v. prevNotarization (snd v)) ` set ?C = fst ` set refs" .
  have leaves: "set (tree_leaves seedRef refs) = {x \<in> insert seedRef (set (pending_outputs refs)). x \<notin> fst ` set refs}"
    by (auto simp: tree_leaves_def)
  have sub1: "set ?T \<subseteq> set (tree_leaves seedRef refs)"
  proof
    fix t assume t: "t \<in> set ?T"
    then have "t \<in> insert seedRef (set (pending_outputs refs))" using TV nodes by blast
    moreover have "t \<notin> (\<lambda>v. prevNotarization (snd v)) ` set ?C" using E t by blast
    then have "t \<notin> fst ` set refs" unfolding parents .
    ultimately show "t \<in> set (tree_leaves seedRef refs)" unfolding leaves by blast
  qed
  have sub2: "set (tree_leaves seedRef refs) \<subseteq> set ?T"
  proof
    fix t assume "t \<in> set (tree_leaves seedRef refs)"
    then have tv: "t \<in> set ?V" and "t \<notin> fst ` set refs" unfolding leaves nodes by blast+
    then have "t \<notin> (\<lambda>v. prevNotarization (snd v)) ` set ?C" unfolding parents by simp
    with tv show "t \<in> set ?T" using G by blast
  qed
  show tips: "set ?T = set (tree_leaves seedRef refs)" using sub1 sub2 by blast
  show "distinct ?T" by (rule dT)
  have dl: "distinct (tree_leaves seedRef refs)"
    unfolding tree_leaves_def using d0 by (rule distinct_filter)
  have "length ?T = card (set ?T)" using dT by (simp only: distinct_card)
  also have "\<dots> = card (set (tree_leaves seedRef refs))" by (simp only: tips)
  also have "\<dots> = length (tree_leaves seedRef refs)" using dl by (simp only: distinct_card)
  finally show "length (forks nd) = length (tree_leaves seedRef refs)" by simp
qed


text \<open>
  Claim C6. The pending entries form a tree rooted at the seed. Then the loop consumes every
  entry, each record enters \<^verbatim>\<open>vtx\<close> once, and the forks are one per leaf: the tips of the
  forks are pairwise distinct and are exactly the leaves of the tree, and every fork is a
  path from entry 0, the seed, along parent references. At a fork tip with matches the first
  match is appended to the fork in place and every further match becomes a new fork, the
  copy of the fork's path before the step followed by that record.
\<close>

theorem expand_forks_one_fork_per_leaf:
  assumes tree: "pending_tree seedRef refs"
  shows "(case expand_forks (single_fork seedRef seedNotarization) refs True of
            (nd, left) \<Rightarrow>
              left = [] \<and>
              length (forks nd) = length (tree_leaves seedRef refs) \<and>
              distinct (map (tip_ref nd) (forks nd)) \<and>
              set (map (tip_ref nd) (forks nd)) = set (tree_leaves seedRef refs) \<and>
              (\<forall>f \<in> set (forks nd). f \<noteq> [] \<and> hd f = 0 \<and>
                 (\<forall>i. Suc i < length f \<longrightarrow>
                    prevNotarization (snd (vtx nd ! (f ! Suc i))) = fst (vtx nd ! (f ! i)))) \<and>
              hd (vtx nd) = (seedRef, seedNotarization) \<and>
              distinct (map fst (vtx nd)) \<and>
              set (tl (vtx nd)) = snd ` set refs) \<and>
         (\<forall>nd R k m ms a.
            k < length (forks nd) \<and> refs_of (tip_ref nd (forks nd ! k)) R = m # ms \<longrightarrow>
            extend_fork k (nd, R, a) =
              (nd\<lparr>vtx := vtx nd @ m # ms,
                  forks := (forks nd)[k := forks nd ! k @ [length (vtx nd)]] @
                           map (\<lambda>j. forks nd ! k @ [j])
                             [Suc (length (vtx nd))..<Suc (length (vtx nd)) + length ms]\<rparr>,
               refs_erase (tip_ref nd (forks nd ! k)) R, True))"
proof
  let ?nd0 = "single_fork seedRef seedNotarization"
  obtain nd left where x: "expand_forks ?nd0 refs True = (nd, left)"
    by (cases "expand_forks ?nd0 refs True") auto
  have keys: "\<forall>e \<in> set refs. fst e = prevNotarization (snd (snd e))"
    and d0: "distinct (seedRef # pending_outputs refs)"
    using tree by (auto simp: pending_tree_def)
  note f = expand_forks_tree_final [OF tree x]
  note t = tree_state_tips_are_leaves [OF keys d0 f(2)]
  have rooted: "forks_rooted nd" using f(2) by (simp add: tree_state_def)
  have paths: "\<forall>f \<in> set (forks nd). f \<noteq> [] \<and> hd f = 0 \<and>
      (\<forall>i. Suc i < length f \<longrightarrow> prevNotarization (snd (vtx nd ! (f ! Suc i))) = fst (vtx nd ! (f ! i)))"
    using rooted f(3) unfolding forks_rooted_def parent_chains_def by fast
  have "grown_from ?nd0 nd"
    using expand_forks_rooted [OF forks_rooted_single_fork x] by simp
  then have hd: "hd (vtx nd) = (seedRef, seedNotarization)"
    by (auto simp: grown_from_def single_fork_def)
  show "case expand_forks ?nd0 refs True of
          (nd, left) \<Rightarrow>
              left = [] \<and>
              length (forks nd) = length (tree_leaves seedRef refs) \<and>
              distinct (map (tip_ref nd) (forks nd)) \<and>
              set (map (tip_ref nd) (forks nd)) = set (tree_leaves seedRef refs) \<and>
              (\<forall>f \<in> set (forks nd). f \<noteq> [] \<and> hd f = 0 \<and>
                 (\<forall>i. Suc i < length f \<longrightarrow>
                    prevNotarization (snd (vtx nd ! (f ! Suc i))) = fst (vtx nd ! (f ! i)))) \<and>
              hd (vtx nd) = (seedRef, seedNotarization) \<and>
              distinct (map fst (vtx nd)) \<and>
              set (tl (vtx nd)) = snd ` set refs"
    unfolding x prod.case using f(1) t(3) t(2) t(1) paths hd t(4) t(5) by (intro conjI)
next
  show "\<forall>nd R k m ms a.
            k < length (forks nd) \<and> refs_of (tip_ref nd (forks nd ! k)) R = m # ms \<longrightarrow>
            extend_fork k (nd, R, a) =
              (nd\<lparr>vtx := vtx nd @ m # ms,
                  forks := (forks nd)[k := forks nd ! k @ [length (vtx nd)]] @
                           map (\<lambda>j. forks nd ! k @ [j])
                             [Suc (length (vtx nd))..<Suc (length (vtx nd)) + length ms]\<rparr>,
               refs_erase (tip_ref nd (forks nd ! k)) R, True)"
    unfolding tip_ref_def using extend_fork_some by blast
qed

theorem expand_forks_one_fork_per_leaf_witness:
  "pending_tree (ex_ref 10) ex_refs \<and>
   tree_leaves (ex_ref 10) ex_refs = [ex_ref 12, ex_ref 13] \<and>
   (case expand_forks (single_fork (ex_ref 10) (ex_R 1)) ex_refs True of
      (nd, left) \<Rightarrow>
        left = [] \<and> length (forks nd) = 2 \<and>
        set (map (tip_ref nd) (forks nd)) = {ex_ref 12, ex_ref 13} \<and>
        set (tl (vtx nd)) = {(ex_ref 11, ex_P1 5), (ex_ref 12, ex_P2 5), (ex_ref 13, ex_P3 3)})"
proof -
  have t: "pending_tree (ex_ref 10) ex_refs"
    by code_simp
  have l: "tree_leaves (ex_ref 10) ex_refs = [ex_ref 12, ex_ref 13]"
    by code_simp
  have s: "snd ` set ex_refs = {(ex_ref 11, ex_P1 5), (ex_ref 12, ex_P2 5), (ex_ref 13, ex_P3 3)}"
    by (simp add: ex_refs_def)
  show ?thesis
    using expand_forks_one_fork_per_leaf [OF t, of "ex_R 1"] t l s
    by (auto split: prod.splits)
qed

section \<open>Properties of the price arithmetic\<close>


lemma sint_nonneg_uint:
  fixes w :: "64 word"
  assumes "0 \<le> sint w"
  shows "uint w = sint w" and "uint w < 2 ^ 63"
proof -
  have lt: "sint w < 2 ^ 63" using sint_lt [of w] by simp
  then have "sint w < 2 ^ 64" by simp
  then have "take_bit 64 (sint w) = sint w"
    using assms by (simp add: take_bit_int_eq_self)
  then show "uint w = sint w" by (simp add: uint_sint)
  with lt show "uint w < 2 ^ 63" by simp
qed

lemma len_numeral_256: "LENGTH(256) = 256"
  by simp

lemma uint_ucast_256: "uint (ucast (w :: 64 word) :: 256 word) = uint w"
  by (simp add: uint_up_ucast is_up)

lemma int_prod_bound:
  fixes x y :: int
  assumes "0 \<le> x" "x < a" "0 \<le> y" "y < b"
  shows "x * y < a * b"
  using assms by (intro mult_strict_mono') auto

lemma uint_mult2_256:
  fixes a b :: "64 word"
  shows "uint ((ucast a :: 256 word) * ucast b) = uint a * uint b"
proof -
  have "uint a * uint b < 2 ^ 64 * 2 ^ 64"
    by (rule int_prod_bound) (use uint_lt2p [of a] uint_lt2p [of b] in simp_all)
  then have "uint a * uint b < 2 ^ 256" by simp
  then show ?thesis
    by (simp add: uint_word_ariths uint_ucast_256)
qed

lemma uint_mult3_256:
  fixes a b c :: "64 word"
  shows "uint ((ucast a :: 256 word) * (ucast b * ucast c)) = uint a * (uint b * uint c)"
proof -
  have bc: "uint b * uint c < 2 ^ 64 * 2 ^ 64"
    by (rule int_prod_bound) (use uint_lt2p [of c] uint_lt2p [of b] in simp_all)
  have "uint a * (uint b * uint c) < 2 ^ 64 * (2 ^ 64 * 2 ^ 64)"
    by (rule int_prod_bound) (use uint_lt2p [of a] bc in simp_all)
  then have "uint a * (uint b * uint c) < 2 ^ 256" by simp
  moreover have "uint ((ucast a :: 256 word) * (ucast b * ucast c))
      = (uint (ucast a :: 256 word) * uint ((ucast b :: 256 word) * ucast c)) mod 2 ^ 256"
    by (simp only: uint_word_ariths len_numeral_256)
  ultimately show ?thesis
    by (simp only: uint_mult2_256 uint_ucast_256) simp
qed

text \<open>The 256-bit quotient \<^verbatim>\<open>bigAnswer\<close> of \<open>CalculateFractionalPrice\<close>.\<close>

definition price_quotient :: "CAmount \<Rightarrow> CAmount \<Rightarrow> arith_uint256" where
  "price_quotient n d = (ucast n * (ucast SATOSHIDEN * ucast SATOSHIDEN)) div (ucast d * ucast SATOSHIDEN)"

lemma uint_price_quotient:
  "uint (price_quotient n d) = (uint n * (uint SATOSHIDEN * uint SATOSHIDEN)) div (uint d * uint SATOSHIDEN)"
  unfolding price_quotient_def by (simp only: uint_div uint_mult2_256 uint_mult3_256)

lemma uint_SATOSHIDEN: "uint SATOSHIDEN = 100000000"
  by (simp add: SATOSHIDEN_def)

lemma denominator_zero_iff: "(ucast (d :: 64 word) :: arith_uint256) * ucast SATOSHIDEN = 0 \<longleftrightarrow> d = 0"
proof -
  have "(ucast d :: arith_uint256) * ucast SATOSHIDEN = 0 \<longleftrightarrow> uint ((ucast d :: arith_uint256) * ucast SATOSHIDEN) = 0"
    by (simp add: word_uint_eq_iff)
  also have "\<dots> \<longleftrightarrow> uint d = 0"
    by (simp only: uint_mult2_256 uint_SATOSHIDEN) simp
  also have "\<dots> \<longleftrightarrow> d = 0"
    by (simp add: word_uint_eq_iff)
  finally show ?thesis .
qed

lemma CalculateFractionalPrice_rounddown:
  "d \<noteq> 0 \<Longrightarrow> CalculateFractionalPrice n d False = Inr (GetLow64 (price_quotient n d))"
  by (simp add: CalculateFractionalPrice_def Let_def denominator_zero_iff price_quotient_def)


lemma sint_word_of_int_small:
  assumes "0 \<le> q" "q < 2 ^ 63"
  shows "sint (word_of_int q :: 64 word) = q"
proof -
  have "- (2 ^ 63) \<le> q" using assms(1) by simp
  then have "signed_take_bit 63 q = q"
    using assms(2) by (rule signed_take_bit_int_eq_self)
  then show ?thesis by (simp add: sint_sbintrunc')
qed

text \<open>
  Claim C3, as the code has it. For non-negative \<open>numerator\<close> and positive \<open>denominator\<close> the
  products \<open>numerator * scale\<^sup>2\<close> and \<open>denominator * scale\<close> are formed in 256 bits without
  wrapping, and with the roundup flag cleared the function returns the low 64 bits of
  \<open>floor (numerator * scale\<^sup>2 / (denominator * scale))\<close>, \<open>scale = 10\<^sup>8\<close>; read as a signed
  \<^verbatim>\<open>CAmount\<close> this is the floor itself whenever the floor is below \<open>2\<^sup>6\<^sup>3\<close>. For numerator 1
  and denominator 3 the result \<open>r\<close> satisfies \<open>r * 3 * scale \<le> scale\<^sup>2 < (r + 1) * 3 * scale\<close>.
\<close>

theorem CalculateFractionalPrice_floor:
  "(0 \<le> sint n \<and> 0 < sint d \<longrightarrow>
      (\<exists>r. CalculateFractionalPrice n d False = Inr r \<and>
           r = word_of_int (sint n * (100000000 * 100000000) div (sint d * 100000000)) \<and>
           (sint n * (100000000 * 100000000) div (sint d * 100000000) < 2 ^ 63 \<longrightarrow>
              sint r = sint n * (100000000 * 100000000) div (sint d * 100000000)))) \<and>
   (\<exists>r. CalculateFractionalPrice 1 3 False = Inr r \<and>
        sint r * 3 * 100000000 \<le> 1 * (100000000 * 100000000) \<and>
        1 * (100000000 * 100000000) < (sint r + 1) * 3 * 100000000)"
proof (intro conjI impI)
  assume a: "0 \<le> sint n \<and> 0 < sint d"
  let ?q = "sint n * (100000000 * 100000000) div (sint d * 100000000)"
  have n: "uint n = sint n" and d: "uint d = sint d"
    using a by (simp_all add: sint_nonneg_uint)
  have dnz: "d \<noteq> 0" using a by auto
  have q: "uint (price_quotient n d) = ?q"
    by (simp only: uint_price_quotient uint_SATOSHIDEN n d)
  have r: "GetLow64 (price_quotient n d) = word_of_int ?q"
    unfolding GetLow64_def by (simp only: ucast_eq q)
  have nn: "0 \<le> ?q"
    using a by (intro pos_imp_zdiv_nonneg_iff [THEN iffD2]) simp_all
  show "\<exists>r. CalculateFractionalPrice n d False = Inr r \<and> r = word_of_int ?q \<and>
           (?q < 2 ^ 63 \<longrightarrow> sint r = ?q)"
    using CalculateFractionalPrice_rounddown [OF dnz, of n] r nn
    by (auto simp only: sint_word_of_int_small)
next
  show "\<exists>r. CalculateFractionalPrice 1 3 False = Inr r \<and>
        sint r * 3 * 100000000 \<le> 1 * (100000000 * 100000000) \<and>
        1 * (100000000 * 100000000) < (sint r + 1) * 3 * 100000000"
    by (simp add: CalculateFractionalPrice_def SATOSHIDEN_def GetLow64_def Let_def)
qed

theorem CalculateFractionalPrice_floor_witness:
  "0 \<le> sint (7 :: 64 word) \<and> 0 < sint (2 :: 64 word) \<and>
   CalculateFractionalPrice 7 2 False = Inr 350000000 \<and> sint (350000000 :: 64 word) = 350000000"
  using CalculateFractionalPrice_floor [of 7 2] by simp

text \<open>
  The quotient is cut to 64 bits by \<^verbatim>\<open>GetLow64\<close>: for numerator \<open>2\<^sup>6\<^sup>3 - 1\<close> and denominator 1
  the floor is \<open>922337203685477580700000000\<close>, and the function returns \<open>- 100000000\<close>.
\<close>

theorem CalculateFractionalPrice_floor_counterexample:
  "0 \<le> sint (9223372036854775807 :: 64 word) \<and> 0 < sint (1 :: 64 word) \<and>
   CalculateFractionalPrice 9223372036854775807 1 False = Inr 18446744073609551616 \<and>
   sint (18446744073609551616 :: 64 word) = - 100000000 \<and>
   sint (9223372036854775807 :: 64 word) * (100000000 * 100000000) div (sint (1 :: 64 word) * 100000000)
     = 922337203685477580700000000"
  by (simp add: CalculateFractionalPrice_def SATOSHIDEN_def GetLow64_def Let_def)

text \<open>
  Claim C2 asks that the roundup result be the round-down result plus 1 exactly when
  \<open>numerator * scale\<^sup>2 mod (denominator * scale)\<close> is not zero. The code tests the low 64 bits
  of that remainder only. For numerator \<open>2\<^sup>4\<^sup>8\<close> and denominator \<open>2\<^sup>5\<^sup>7\<close> the remainder is
  \<open>2\<^sup>6\<^sup>4 * 5\<^sup>8\<close>, not zero, its low 64 bits are zero, and both flags return 195312.
\<close>

theorem CalculateFractionalPrice_roundup_truncated_remainder:
  "0 \<le> sint (281474976710656 :: 64 word) \<and> 0 < sint (144115188075855872 :: 64 word) \<and>
   CalculateFractionalPrice 281474976710656 144115188075855872 False = Inr 195312 \<and>
   CalculateFractionalPrice 281474976710656 144115188075855872 True = Inr 195312 \<and>
   (281474976710656 * (100000000 * 100000000)) mod (144115188075855872 * 100000000) = (7205759403792793600000000 :: int)"
  by (simp add: CalculateFractionalPrice_def SATOSHIDEN_def GetLow64_def Let_def)

end
